theory Spec2Isabelle
  imports Main
begin

section \<open>Bytes, JavaScript strings and the library calls the proxy relies on\<close>

text \<open>
  A Node \<^verbatim>\<open>Buffer\<close> is a list of bytes (\<^typ>\<open>char\<close> is eight bits wide); a JavaScript
  string is a list of UTF-16 code units, kept as natural numbers.
\<close>

type_synonym jsstring = "nat list"

definition CR :: char where
  "CR = CHR 0x0D"

definition LF :: char where
  "LF = CHR 0x0A"

definition CRLF2 :: "char list" where
  "CRLF2 = [CR, LF, CR, LF]"

definition CRLF2_text :: jsstring where
  "CRLF2_text = [13, 10, 13, 10]"

text \<open>
  \<^verbatim>\<open>buffer.indexOf(needle)\<close>: the offset of the first occurrence, \<open>None\<close> for \<^verbatim>\<open>-1\<close>.
  \<^verbatim>\<open>string.indexOf(needle, pos)\<close> starts the search at \<open>pos\<close>.
\<close>

fun indexOf :: "'a list \<Rightarrow> 'a list \<Rightarrow> nat option" where
  "indexOf [] needle = (if needle = [] then Some 0 else None)"
| "indexOf (x # xs) needle =
     (if take (length needle) (x # xs) = needle then Some 0
      else map_option Suc (indexOf xs needle))"

definition indexOf_from :: "'a list \<Rightarrow> 'a list \<Rightarrow> nat \<Rightarrow> nat option" where
  "indexOf_from s needle pos = map_option (\<lambda>i. pos + i) (indexOf (drop pos s) needle)"

text \<open>\<^verbatim>\<open>s.slice(a, b)\<close> for \<open>0 \<le> a\<close>: both ends are clamped to the length.\<close>

definition slice :: "'a list \<Rightarrow> nat \<Rightarrow> nat \<Rightarrow> 'a list" where
  "slice s a b = take (b - a) (drop a s)"

subsection \<open>\<^verbatim>\<open>Buffer.toString('utf8')\<close>\<close>

text \<open>
  The UTF-8 decoder of the Encoding standard, which Node follows: a byte that cannot
  continue the sequence under way yields U+FFFD and is then read again as the start of a
  sequence; a sequence cut off by the end of the input yields U+FFFD. A code point above
  U+FFFF becomes a surrogate pair.
\<close>

definition code_units :: "nat \<Rightarrow> jsstring" where
  "code_units cp =
     (if cp < 0x10000 then [cp]
      else [0xD800 + (cp - 0x10000) div 0x400, 0xDC00 + (cp - 0x10000) mod 0x400])"

record utf8_state =
  code_point :: nat
  bytes_needed :: nat
  lower_boundary :: nat
  upper_boundary :: nat

definition utf8_init :: utf8_state where
  "utf8_init = \<lparr>code_point = 0, bytes_needed = 0, lower_boundary = 0x80, upper_boundary = 0xBF\<rparr>"

definition utf8_lead :: "nat \<Rightarrow> jsstring \<times> utf8_state" where
  "utf8_lead n =
     (if n < 0x80 then ([n], utf8_init)
      else if 0xC2 \<le> n \<and> n \<le> 0xDF then
        ([], utf8_init\<lparr>code_point := n mod 32, bytes_needed := 1\<rparr>)
      else if 0xE0 \<le> n \<and> n \<le> 0xEF then
        ([], utf8_init\<lparr>code_point := n mod 16, bytes_needed := 2,
               lower_boundary := (if n = 0xE0 then 0xA0 else 0x80),
               upper_boundary := (if n = 0xED then 0x9F else 0xBF)\<rparr>)
      else if 0xF0 \<le> n \<and> n \<le> 0xF4 then
        ([], utf8_init\<lparr>code_point := n mod 8, bytes_needed := 3,
               lower_boundary := (if n = 0xF0 then 0x90 else 0x80),
               upper_boundary := (if n = 0xF4 then 0x8F else 0xBF)\<rparr>)
      else ([0xFFFD], utf8_init))"

definition utf8_step :: "utf8_state \<Rightarrow> nat \<Rightarrow> jsstring \<times> utf8_state" where
  "utf8_step s n =
     (if bytes_needed s = 0 then utf8_lead n
      else if n < lower_boundary s \<or> upper_boundary s < n then
        (0xFFFD # fst (utf8_lead n), snd (utf8_lead n))
      else if bytes_needed s = 1 then
        (code_units (code_point s * 64 + n mod 64), utf8_init)
      else ([], utf8_init\<lparr>code_point := code_point s * 64 + n mod 64,
                   bytes_needed := bytes_needed s - 1\<rparr>))"

fun utf8_run :: "utf8_state \<Rightarrow> char list \<Rightarrow> jsstring" where
  "utf8_run s [] = (if bytes_needed s = 0 then [] else [0xFFFD])"
| "utf8_run s (b # bs) =
     fst (utf8_step s (of_char b)) @ utf8_run (snd (utf8_step s (of_char b))) bs"

definition toString :: "char list \<Rightarrow> jsstring" where
  "toString bs = utf8_run utf8_init bs"

subsection \<open>\<^verbatim>\<open>header.match(/Content-Length:\s*(\d+)/i)\<close> and \<^verbatim>\<open>parseInt(match[1], 10)\<close>\<close>

text \<open>
  The pattern is a literal matched without regard to case, then white space, then a
  non-empty run of digits that is captured. The classes \<^verbatim>\<open>\s\<close> and \<^verbatim>\<open>\d\<close> are disjoint
  and both quantifiers are greedy, so at a given start the match is determined; the
  matcher returns the capture of the leftmost start that matches. Without the \<^verbatim>\<open>u\<close>
  flag, case folding never identifies a code unit of 128 or more with an ASCII one, so
  \<open>canonicalize\<close> only has to fold the ASCII letters.
\<close>

definition is_space :: "nat \<Rightarrow> bool" where
  "is_space u \<longleftrightarrow>
     u \<in> {0x09, 0x0A, 0x0B, 0x0C, 0x0D, 0x20, 0xA0, 0x1680, 0x2028, 0x2029,
          0x202F, 0x205F, 0x3000, 0xFEFF} \<or> (0x2000 \<le> u \<and> u \<le> 0x200A)"

definition is_digit :: "nat \<Rightarrow> bool" where
  "is_digit u \<longleftrightarrow> 48 \<le> u \<and> u \<le> 57"

definition canonicalize :: "nat \<Rightarrow> nat" where
  "canonicalize u = (if 97 \<le> u \<and> u \<le> 122 then u - 32 else u)"

definition content_length_literal :: jsstring where
  "content_length_literal = map of_char ''Content-Length:''"

fun match_literal :: "jsstring \<Rightarrow> jsstring \<Rightarrow> jsstring option" where
  "match_literal [] s = Some s"
| "match_literal (p # ps) [] = None"
| "match_literal (p # ps) (c # cs) =
     (if canonicalize c = canonicalize p then match_literal ps cs else None)"

definition match_here :: "jsstring \<Rightarrow> jsstring option" where
  "match_here s =
     (case match_literal content_length_literal s of
        None \<Rightarrow> None
      | Some r \<Rightarrow>
          (let ds = takeWhile is_digit (dropWhile is_space r)
           in if ds = [] then None else Some ds))"

fun header_match :: "jsstring \<Rightarrow> jsstring option" where
  "header_match [] = None"
| "header_match (c # cs) =
     (case match_here (c # cs) of
        Some ds \<Rightarrow> Some ds
      | None \<Rightarrow> header_match cs)"

text \<open>
  \<^verbatim>\<open>parseInt\<close> is only ever applied to a capture of \<^verbatim>\<open>(\d+)\<close>, a non-empty run of
  decimal digits. Its result is a double in the source; a double is exact below \<open>2^53\<close>
  and rounding is monotone, so against the length of a buffer (always below \<open>2^53\<close>) the
  comparisons of the source come out as on the natural numbers used here.
\<close>

definition parseInt :: "jsstring \<Rightarrow> nat" where
  "parseInt ds = foldl (\<lambda>a d. a * 10 + (d - 48)) 0 ds"

section \<open>The proxy: one connection of \<^verbatim>\<open>setupCopilotProxy\<close>\<close>

text \<open>
  The proxy is \<^verbatim>\<open>setupCopilotProxy\<close>. Its later version, which reassembles frames before
  forwarding them, is the one found under \<^verbatim>\<open>src/taskpane/App.tsx\<close>; its first version is
  \<^verbatim>\<open>src/copilotProxy.js\<close>. The two differ in the \<^verbatim>\<open>stdout\<close> handler only.

  The state of one connection as the handlers see it: the closure variable
  \<^verbatim>\<open>buffer\<close>, the socket (\<^verbatim>\<open>ws.readyState\<close> and the calls made on it) and the child
  (\<^verbatim>\<open>child.killed\<close>, whether its process handle is still there, and the calls made on it).
\<close>

datatype ready_state = CONNECTING | OPEN | CLOSING | CLOSED

record connection =
  buffer :: "char list"
  readyState :: ready_state
  sent :: "char list list"
  closes :: "(nat \<times> string) list"
  running :: bool
  killed :: bool
  kill_calls :: nat
  signals :: nat
  stdin :: "char list list"

definition connect :: "bool \<Rightarrow> connection" where
  "connect spawned =
     \<lparr>buffer = [], readyState = OPEN, sent = [], closes = [], running = spawned,
      killed = False, kill_calls = 0, signals = 0, stdin = []\<rparr>"

text \<open>
  The library calls. \<^verbatim>\<open>ws.close\<close> starts the closing handshake unless the socket is
  closed already. \<^verbatim>\<open>child.kill()\<close> delivers the signal and sets \<^verbatim>\<open>child.killed\<close> only
  while the process handle exists; on a child that has exited it returns \<^verbatim>\<open>false\<close>
  and changes nothing.
\<close>

definition ws_send :: "char list \<Rightarrow> connection \<Rightarrow> connection" where
  "ws_send message st = st\<lparr>sent := sent st @ [message]\<rparr>"

definition ws_close :: "nat \<Rightarrow> string \<Rightarrow> connection \<Rightarrow> connection" where
  "ws_close code reason st =
     st\<lparr>closes := closes st @ [(code, reason)],
        readyState := (if readyState st = CLOSED then CLOSED else CLOSING)\<rparr>"

definition child_kill :: "connection \<Rightarrow> connection" where
  "child_kill st =
     (if running st
      then st\<lparr>kill_calls := kill_calls st + 1, signals := signals st + 1, killed := True\<rparr>
      else st\<lparr>kill_calls := kill_calls st + 1\<rparr>)"

subsection \<open>The handlers of the child\<close>

definition on_child_error :: "connection \<Rightarrow> connection" where
  "on_child_error st = ws_close 1011 ''Child process error'' st"

definition on_child_exit :: "int option \<Rightarrow> connection \<Rightarrow> connection" where
  "on_child_exit code st = ws_close 1000 ''Child process exited'' st"

text \<open>
  The loop of the \<^verbatim>\<open>stdout\<close> handler, \<^verbatim>\<open>while (iterations++ < 100)\<close>; the first argument
  is the number of iterations still allowed, \<open>100 - iterations\<close>. The block that parses
  the body as JSON only writes to the console and sits in a \<^verbatim>\<open>try\<close> with an empty
  \<^verbatim>\<open>catch\<close>, so it changes nothing here.
\<close>

fun process_buffer :: "nat \<Rightarrow> connection \<Rightarrow> connection" where
  "process_buffer 0 st = st"
| "process_buffer (Suc n) st =
     (case indexOf (buffer st) CRLF2 of
        None \<Rightarrow> st
      | Some headerEnd \<Rightarrow>
          (case header_match (toString (slice (buffer st) 0 headerEnd)) of
             None \<Rightarrow> process_buffer n (st\<lparr>buffer := drop (headerEnd + 4) (buffer st)\<rparr>)
           | Some m1 \<Rightarrow>
               (let contentLength = parseInt m1;
                    messageEnd = headerEnd + 4 + contentLength
                in if length (buffer st) < messageEnd then st
                   else
                     (let message = slice (buffer st) 0 messageEnd;
                          st' = st\<lparr>buffer := drop messageEnd (buffer st)\<rparr>
                      in process_buffer n
                           (if readyState st' = OPEN then ws_send message st' else st')))))"

definition on_stdout_data :: "char list \<Rightarrow> connection \<Rightarrow> connection" where
  "on_stdout_data data st = process_buffer 100 (st\<lparr>buffer := buffer st @ data\<rparr>)"

subsection \<open>The handlers of the socket\<close>

text \<open>
  A message from the browser is written to the child's \<^verbatim>\<open>stdin\<close> as it is; the write is
  recorded, what the pipe does with it is outside the model.
\<close>

definition on_ws_message :: "char list \<Rightarrow> connection \<Rightarrow> connection" where
  "on_ws_message data st = (if \<not> killed st then st\<lparr>stdin := stdin st @ [data]\<rparr> else st)"

definition on_ws_close :: "connection \<Rightarrow> connection" where
  "on_ws_close st = (if \<not> killed st then child_kill st else st)"

definition on_ws_error :: "connection \<Rightarrow> connection" where
  "on_ws_error st = (if \<not> killed st then child_kill st else st)"

subsection \<open>Events\<close>

text \<open>
  What the runtime has done by the time a handler runs: the process handle is gone when
  \<^verbatim>\<open>exit\<close> fires, the socket is closed when \<^verbatim>\<open>close\<close> fires and closing when \<^verbatim>\<open>error\<close>
  fires. The \<^verbatim>\<open>stderr\<close> handler only writes to the console.
\<close>

datatype event =
    ChildError
  | ChildExit "int option"
  | StdoutData "char list"
  | StderrData "char list"
  | WsMessage "char list"
  | WsClose
  | WsError

fun deliver :: "connection \<Rightarrow> event \<Rightarrow> connection" where
  "deliver st ChildError = on_child_error st"
| "deliver st (ChildExit code) = on_child_exit code (st\<lparr>running := False\<rparr>)"
| "deliver st (StdoutData data) = on_stdout_data data st"
| "deliver st (StderrData data) = st"
| "deliver st (WsMessage data) = on_ws_message data st"
| "deliver st WsClose = on_ws_close (st\<lparr>readyState := CLOSED\<rparr>)"
| "deliver st WsError =
     on_ws_error (st\<lparr>readyState := (if readyState st = CLOSED then CLOSED else CLOSING)\<rparr>)"

definition run :: "connection \<Rightarrow> event list \<Rightarrow> connection" where
  "run st evs = foldl deliver st evs"

subsection \<open>The first version of the proxy, which forwards chunks as they come\<close>

definition on_stdout_data_unframed :: "char list \<Rightarrow> connection \<Rightarrow> connection" where
  "on_stdout_data_unframed data st = (if readyState st = OPEN then ws_send data st else st)"

subsection \<open>The upgrade handler\<close>

text \<open>
  \<^verbatim>\<open>new URL(input, base)\<close> belongs to the runtime and is a parameter: it returns the
  parsed URL or throws a \<^verbatim>\<open>TypeError\<close>. A request without a \<^verbatim>\<open>Host\<close> header has
  \<^verbatim>\<open>request.headers.host\<close> undefined, which the template literal prints as
  \<^verbatim>\<open>undefined\<close>. The handler either hands the request to \<^verbatim>\<open>wss.handleUpgrade\<close> or does
  nothing with it.
\<close>

datatype js_error = TypeError

record request =
  url :: string
  host :: "string option"

record URL =
  pathname :: string

datatype upgrade_action = HandleUpgrade

definition base_url :: "request \<Rightarrow> string" where
  "base_url req = ''https://'' @ (case host req of None \<Rightarrow> ''undefined'' | Some h \<Rightarrow> h)"

definition upgradeHandler ::
  "(string \<Rightarrow> string \<Rightarrow> js_error + URL) \<Rightarrow> request \<Rightarrow> js_error + upgrade_action list" where
  "upgradeHandler new_URL req =
     (case new_URL (url req) (base_url req) of
        Inl e \<Rightarrow> Inl e
      | Inr u \<Rightarrow> if pathname u = ''/api/copilot'' then Inr [HandleUpgrade] else Inr [])"

section \<open>The browser side: \<^verbatim>\<open>parseMessages\<close>\<close>

text \<open>
  \<^verbatim>\<open>JSON.parse\<close> belongs to the runtime and is a parameter: \<open>None\<close> stands for the
  \<^verbatim>\<open>SyntaxError\<close> that the \<^verbatim>\<open>catch\<close> swallows. The loop carries the position and the
  messages pushed so far; the three \<^verbatim>\<open>break\<close>s and the failing loop condition all leave
  with them unchanged.
\<close>

function parse_loop ::
  "(jsstring \<Rightarrow> 'v option) \<Rightarrow> jsstring \<Rightarrow> nat \<Rightarrow> 'v list \<Rightarrow> 'v list \<times> nat" where
  "parse_loop JSON_parse buf pos msgs =
     (if pos < length buf then
        (case indexOf_from buf CRLF2_text pos of
           None \<Rightarrow> (msgs, pos)
         | Some headerEnd \<Rightarrow>
             (case header_match (slice buf pos headerEnd) of
                None \<Rightarrow> (msgs, pos)
              | Some m1 \<Rightarrow>
                  (let contentLength = parseInt m1;
                       contentStart = headerEnd + 4;
                       contentEnd = contentStart + contentLength
                   in if contentEnd > length buf then (msgs, pos)
                      else parse_loop JSON_parse buf contentEnd
                             (case JSON_parse (slice buf contentStart contentEnd) of
                                Some v \<Rightarrow> msgs @ [v]
                              | None \<Rightarrow> msgs))))
      else (msgs, pos))"
  by pat_completeness auto
termination
proof (relation "measure (\<lambda>(JSON_parse, buf, pos, msgs). length buf - pos)")
  show "wf (measure (\<lambda>(JSON_parse, buf, pos, msgs). length buf - pos))"
    by simp
next
  fix JSON_parse :: "jsstring \<Rightarrow> 'v option"
  fix buf :: jsstring and pos :: nat and msgs :: "'v list"
  fix headerEnd m1 contentLength contentStart contentEnd
  assume "pos < length buf"
    and found: "indexOf_from buf CRLF2_text pos = Some headerEnd"
    and "contentStart = headerEnd + 4"
    and "contentEnd = contentStart + contentLength"
    and "\<not> length buf < contentEnd"
  moreover from found have "pos \<le> headerEnd"
    by (auto simp: indexOf_from_def)
  ultimately show
    "((JSON_parse, buf, contentEnd,
       case JSON_parse (slice buf contentStart contentEnd) of
         None \<Rightarrow> msgs | Some v \<Rightarrow> msgs @ [v]),
      (JSON_parse, buf, pos, msgs))
     \<in> measure (\<lambda>(JSON_parse, buf, pos, msgs). length buf - pos)"
    by simp
qed

declare parse_loop.simps [simp del]

record 'v parsed =
  messages :: "'v list"
  remainder :: jsstring

definition parseMessages :: "(jsstring \<Rightarrow> 'v option) \<Rightarrow> jsstring \<Rightarrow> 'v parsed" where
  "parseMessages JSON_parse buf =
     (case parse_loop JSON_parse buf 0 [] of
        (msgs, pos) \<Rightarrow> \<lparr>messages = msgs, remainder = drop pos buf\<rparr>)"

section \<open>Well-formed frames\<close>

text \<open>
  A valid frame on the child's \<^verbatim>\<open>stdout\<close> is the header \<^verbatim>\<open>Content-Length: N\<close> with \<open>N\<close> in
  decimal, the blank line, and exactly \<open>N\<close> bytes of payload.
\<close>

fun decimal :: "nat \<Rightarrow> jsstring" where
  "decimal n = (if n < 10 then [48 + n] else decimal (n div 10) @ [48 + n mod 10])"

declare decimal.simps [simp del]

definition header :: "nat \<Rightarrow> char list" where
  "header n = ''Content-Length: '' @ map char_of (decimal n)"

definition frame :: "char list \<Rightarrow> char list" where
  "frame payload = header (length payload) @ CRLF2 @ payload"

text \<open>Feeding chunks to the \<^verbatim>\<open>stdout\<close> handler one after the other.\<close>

definition feed :: "connection \<Rightarrow> char list list \<Rightarrow> connection" where
  "feed st chunks = foldl (\<lambda>s data. on_stdout_data data s) st chunks"

section \<open>One iteration of the loop, and what the loop never touches\<close>

lemma pb_none:
  "indexOf (buffer st) CRLF2 = None \<Longrightarrow> process_buffer (Suc n) st = st"
  by simp

lemma pb_skip:
  "indexOf (buffer st) CRLF2 = Some h \<Longrightarrow>
   header_match (toString (slice (buffer st) 0 h)) = None \<Longrightarrow>
   process_buffer (Suc n) st = process_buffer n (st\<lparr>buffer := drop (h + 4) (buffer st)\<rparr>)"
  by simp

lemma pb_wait:
  "indexOf (buffer st) CRLF2 = Some h \<Longrightarrow>
   header_match (toString (slice (buffer st) 0 h)) = Some m \<Longrightarrow>
   length (buffer st) < h + 4 + parseInt m \<Longrightarrow>
   process_buffer (Suc n) st = st"
  by simp

lemma pb_emit:
  "indexOf (buffer st) CRLF2 = Some h \<Longrightarrow>
   header_match (toString (slice (buffer st) 0 h)) = Some m \<Longrightarrow>
   \<not> length (buffer st) < h + 4 + parseInt m \<Longrightarrow>
   process_buffer (Suc n) st =
     process_buffer n
       (if readyState st = OPEN
        then ws_send (slice (buffer st) 0 (h + 4 + parseInt m))
               (st\<lparr>buffer := drop (h + 4 + parseInt m) (buffer st)\<rparr>)
        else st\<lparr>buffer := drop (h + 4 + parseInt m) (buffer st)\<rparr>)"
  by (simp add: Let_def)

lemma pb_cases [case_names none skip wait emit]:
  obtains
    "indexOf (buffer st) CRLF2 = None"
  | h where "indexOf (buffer st) CRLF2 = Some h"
      "header_match (toString (slice (buffer st) 0 h)) = None"
  | h m where "indexOf (buffer st) CRLF2 = Some h"
      "header_match (toString (slice (buffer st) 0 h)) = Some m"
      "length (buffer st) < h + 4 + parseInt m"
  | h m where "indexOf (buffer st) CRLF2 = Some h"
      "header_match (toString (slice (buffer st) 0 h)) = Some m"
      "\<not> length (buffer st) < h + 4 + parseInt m"
  by (cases "indexOf (buffer st) CRLF2"; cases "header_match (toString (slice (buffer st) 0 (the (indexOf (buffer st) CRLF2))))"; fastforce)


lemma process_buffer_child: 
  "running (process_buffer n st) = running st \<and> killed (process_buffer n st) = killed st \<and>
   kill_calls (process_buffer n st) = kill_calls st \<and> signals (process_buffer n st) = signals st"
proof (induction n arbitrary: st)
  case 0
  show ?case by simp
next
  case (Suc n)
  show ?case
  proof (cases st rule: pb_cases)
    case none
    then show ?thesis by (simp only: pb_none)
  next
    case (skip h)
    then show ?thesis by (simp add: pb_skip Suc.IH del: process_buffer.simps)
  next
    case (wait h m)
    then show ?thesis by (simp only: pb_wait)
  next
    case (emit h m)
    then show ?thesis by (simp add: pb_emit Suc.IH ws_send_def del: process_buffer.simps)
  qed
qed

lemma process_buffer_socket: 
  "readyState (process_buffer n st) = readyState st \<and> closes (process_buffer n st) = closes st \<and>
   stdin (process_buffer n st) = stdin st"
proof (induction n arbitrary: st)
  case 0
  show ?case by simp
next
  case (Suc n)
  show ?case
  proof (cases st rule: pb_cases)
    case none
    then show ?thesis by (simp only: pb_none)
  next
    case (skip h)
    then show ?thesis by (simp add: pb_skip Suc.IH del: process_buffer.simps)
  next
    case (wait h m)
    then show ?thesis by (simp only: pb_wait)
  next
    case (emit h m)
    then show ?thesis by (simp add: pb_emit Suc.IH ws_send_def del: process_buffer.simps)
  qed
qed

lemma process_buffer_not_open:
  "readyState st \<noteq> OPEN \<Longrightarrow> sent (process_buffer n st) = sent st"
proof (induction n arbitrary: st)
  case 0
  show ?case by simp
next
  case (Suc n)
  show ?case
  proof (cases st rule: pb_cases)
    case none
    then show ?thesis by (simp only: pb_none)
  next
    case (skip h)
    then show ?thesis using Suc.prems by (simp add: pb_skip Suc.IH del: process_buffer.simps)
  next
    case (wait h m)
    then show ?thesis by (simp only: pb_wait)
  next
    case (emit h m)
    then show ?thesis using Suc.prems by (simp add: pb_emit Suc.IH del: process_buffer.simps)
  qed
qed

lemma process_buffer_buffer:
  "buffer st = buffer st' \<Longrightarrow> buffer (process_buffer n st) = buffer (process_buffer n st')"
proof (induction n arbitrary: st st')
  case 0
  then show ?case by simp
next
  case (Suc n)
  note same = Suc.prems
  show ?case
  proof (cases st rule: pb_cases)
    case none
    then show ?thesis using same by (simp add: pb_none del: process_buffer.simps)
  next
    case (skip h)
    moreover have "buffer (process_buffer n (st\<lparr>buffer := drop (h + 4) (buffer st)\<rparr>)) =
        buffer (process_buffer n (st'\<lparr>buffer := drop (h + 4) (buffer st')\<rparr>))"
      by (rule Suc.IH) (simp add: same)
    ultimately show ?thesis using same by (simp add: pb_skip del: process_buffer.simps)
  next
    case (wait h m)
    then show ?thesis using same by (simp add: pb_wait del: process_buffer.simps)
  next
    case (emit h m)
    let ?e = "h + 4 + parseInt m"
    let ?next = "\<lambda>s. if readyState s = OPEN
        then ws_send (slice (buffer s) 0 ?e) (s\<lparr>buffer := drop ?e (buffer s)\<rparr>)
        else s\<lparr>buffer := drop ?e (buffer s)\<rparr>"
    have "buffer (process_buffer n (?next st)) = buffer (process_buffer n (?next st'))"
      by (rule Suc.IH) (simp add: same ws_send_def)
    with emit show ?thesis using same by (simp add: pb_emit del: process_buffer.simps)
  qed
qed

lemma deliver_killed:
  "killed st \<Longrightarrow> killed (deliver st ev) \<and> kill_calls (deliver st ev) = kill_calls st \<and> signals (deliver st ev) = signals st"
  by (cases ev) (simp_all add: on_child_error_def on_child_exit_def ws_close_def on_stdout_data_def
      process_buffer_child on_ws_message_def on_ws_close_def on_ws_error_def)

lemma run_killed:
  "killed st \<Longrightarrow> killed (run st evs) \<and> kill_calls (run st evs) = kill_calls st \<and> signals (run st evs) = signals st"
  unfolding run_def
  by (induction evs arbitrary: st) (simp_all add: deliver_killed del: deliver.simps)

lemma deliver_signals_inv:
  "signals st = (if killed st then 1 else 0) \<Longrightarrow> signals (deliver st ev) = (if killed (deliver st ev) then 1 else 0)"
  by (cases ev) (simp_all add: on_child_error_def on_child_exit_def ws_close_def on_stdout_data_def
      process_buffer_child on_ws_message_def on_ws_close_def on_ws_error_def child_kill_def)

lemma run_signals_inv:
  "signals st = (if killed st then 1 else 0) \<Longrightarrow> signals (run st evs) = (if killed (run st evs) then 1 else 0)"
  unfolding run_def
  by (induction evs arbitrary: st) (simp_all add: deliver_signals_inv del: deliver.simps)

section \<open>Frames in the buffer\<close>

lemma indexOf_bound:
  "indexOf xs nd = Some i \<Longrightarrow> i + length nd \<le> length xs"
proof (induction xs arbitrary: i)
  case Nil
  then show ?case by (simp split: if_splits)
next
  case (Cons x xs)
  show ?case
  proof (cases "take (length nd) (x # xs) = nd")
    case True
    then have "length nd \<le> length (x # xs)"
      by (metis length_take min.cobounded1)
    with True Cons.prems show ?thesis by simp
  next
    case False
    with Cons.prems obtain j where "indexOf xs nd = Some j" "i = Suc j"
      by auto
    with Cons.IH show ?thesis by fastforce
  qed
qed

lemma indexOf_append:
  "indexOf xs nd = Some i \<Longrightarrow> indexOf (xs @ ys) nd = Some i"
proof (induction xs arbitrary: i)
  case Nil
  then show ?case by (cases ys) (simp_all split: if_splits)
next
  case (Cons x xs)
  show ?case
  proof (cases "take (length nd) (x # xs) = nd")
    case True
    then have len: "length nd \<le> length (x # xs)"
      by (metis length_take min.cobounded1)
    have "take (length nd) ((x # xs) @ ys) = take (length nd) (x # xs)"
      by (subst take_append) (use len in simp)
    with True have "indexOf ((x # xs) @ ys) nd = Some 0"
      by simp
    with True Cons.prems show ?thesis by simp
  next
    case False
    with Cons.prems obtain j where j: "indexOf xs nd = Some j" "i = Suc j"
      by auto
    from j(1) have "length nd \<le> length xs"
      using indexOf_bound by fastforce
    then have "take (length nd) ((x # xs) @ ys) = take (length nd) (x # xs)"
      by (subst take_append) simp
    with False have "indexOf ((x # xs) @ ys) nd = map_option Suc (indexOf (xs @ ys) nd)"
      by simp
    with j Cons.IH show ?thesis by simp
  qed
qed

lemma indexOf_header:
  "CR \<notin> set h \<Longrightarrow> indexOf (h @ CRLF2 @ rest) CRLF2 = Some (length h)"
  by (induction h) (auto simp: CRLF2_def)

lemma indexOf_partial:
  "CR \<notin> set h \<Longrightarrow> m < length h + 4 \<Longrightarrow> indexOf (take m (h @ CRLF2)) CRLF2 = None"
proof (induction h arbitrary: m)
  case Nil
  then have "m = 0 \<or> m = 1 \<or> m = 2 \<or> m = 3" by auto
  then show ?case by (auto simp: CRLF2_def)
next
  case (Cons x h)
  show ?case
  proof (cases m)
    case 0
    then show ?thesis by (simp add: CRLF2_def)
  next
    case (Suc k)
    with Cons.prems have "indexOf (take k (h @ CRLF2)) CRLF2 = None"
      by (intro Cons.IH) auto
    with Suc Cons.prems show ?thesis by (auto simp: CRLF2_def)
  qed
qed

lemma decimal_digits: "d \<in> set (decimal n) \<Longrightarrow> 48 \<le> d \<and> d \<le> 57"
proof (induction n arbitrary: d rule: decimal.induct)
  case (1 n)
  show ?case
  proof (cases "n < 10")
    case True
    with "1.prems" show ?thesis by (subst (asm) decimal.simps) auto
  next
    case False
    with "1.prems" have "d \<in> set (decimal (n div 10)) \<or> d = 48 + n mod 10"
      by (subst (asm) decimal.simps) auto
    with False "1.IH" show ?thesis by auto
  qed
qed

lemma decimal_nonempty: "decimal n \<noteq> []"
  by (subst decimal.simps) simp

lemma parseInt_append: "parseInt (ds @ [d]) = parseInt ds * 10 + (d - 48)"
  by (simp add: parseInt_def)

lemma parseInt_decimal: "parseInt (decimal n) = n"
proof (induction n rule: decimal.induct)
  case (1 n)
  show ?case
  proof (cases "n < 10")
    case True
    then show ?thesis by (subst decimal.simps) (simp add: parseInt_def)
  next
    case False
    with "1.IH" show ?thesis
      by (subst decimal.simps) (simp add: parseInt_append)
  qed
qed

lemma utf8_run_ascii:
  "\<forall>c\<in>set bs. (of_char c :: nat) < 128 \<Longrightarrow> utf8_run utf8_init bs = map of_char bs"
  by (induction bs) (simp_all add: utf8_step_def utf8_lead_def utf8_init_def)

lemma toString_ascii:
  "\<forall>c\<in>set bs. (of_char c :: nat) < 128 \<Longrightarrow> toString bs = map of_char bs"
  by (simp add: toString_def utf8_run_ascii)

lemma of_char_header: "map of_char (header n) = map of_char ''Content-Length: '' @ decimal n"
proof -
  have "map (of_char \<circ> char_of) (decimal n) = decimal n"
    by (rule map_idI) (use decimal_digits in fastforce)
  then show ?thesis by (simp add: header_def)
qed

lemma header_ascii: "c \<in> set (header n) \<Longrightarrow> (of_char c :: nat) < 128"
proof -
  assume "c \<in> set (header n)"
  then have "of_char c \<in> set (map of_char (header n) :: nat list)" by simp
  then have "of_char c \<in> set (map of_char ''Content-Length: '' :: nat list) \<or> of_char c \<in> set (decimal n)"
    by (simp only: of_char_header set_append Un_iff)
  then show ?thesis
    using decimal_digits by fastforce
qed

lemma header_no_CR: "CR \<notin> set (header n)"
proof
  assume "CR \<in> set (header n)"
  then have "of_char CR \<in> set (map of_char (header n) :: nat list)" by simp
  then have "of_char CR \<in> set (map of_char ''Content-Length: '' :: nat list) \<or> of_char CR \<in> set (decimal n)"
    by (simp only: of_char_header set_append Un_iff)
  then show False
    using decimal_digits [of "of_char CR" n] by (auto simp: CR_def)
qed

lemma takeWhile_digits: "takeWhile is_digit (decimal n) = decimal n"
  using decimal_digits by (auto simp: is_digit_def)

lemma dropWhile_space_decimal: "dropWhile is_space (decimal n) = decimal n"
proof (cases "decimal n")
  case Nil
  then show ?thesis by simp
next
  case (Cons d ds)
  then have "48 \<le> d \<and> d \<le> 57" using decimal_digits [of d n] by simp
  then have "\<not> is_space d" by (auto simp: is_space_def)
  with Cons show ?thesis by simp
qed

lemma header_match_header: "header_match (toString (header n)) = Some (decimal n)"
proof -
  have "toString (header n) = map of_char ''Content-Length: '' @ decimal n"
    using header_ascii by (simp add: toString_ascii of_char_header)
  moreover have "match_here (map of_char ''Content-Length: '' @ decimal n) = Some (decimal n)"
    by (simp add: match_here_def content_length_literal_def canonicalize_def is_space_def
        dropWhile_space_decimal takeWhile_digits decimal_nonempty)
  ultimately show ?thesis by simp
qed


lemma length_CRLF2: "length CRLF2 = 4"
  by (simp add: CRLF2_def)

lemma length_frame: "length (frame p) = length (header (length p)) + 4 + length p"
  by (simp add: frame_def CRLF2_def)

lemma frame_step:
  assumes "buffer st = frame p @ rest"
  shows "process_buffer (Suc n) st =
         process_buffer n
           (if readyState st = OPEN then ws_send (frame p) (st\<lparr>buffer := rest\<rparr>)
            else st\<lparr>buffer := rest\<rparr>)"
proof -
  let ?h = "header (length p)"
  have buf: "buffer st = ?h @ CRLF2 @ (p @ rest)"
    using assms by (simp add: frame_def)
  have idx: "indexOf (buffer st) CRLF2 = Some (length ?h)"
    unfolding buf by (rule indexOf_header) (rule header_no_CR)
  have "slice (buffer st) 0 (length ?h) = ?h"
    by (simp add: buf slice_def)
  then have hm: "header_match (toString (slice (buffer st) 0 (length ?h))) = Some (decimal (length p))"
    by (simp add: header_match_header)
  have e: "length ?h + 4 + parseInt (decimal (length p)) = length (frame p)"
    by (simp add: parseInt_decimal length_frame)
  have "\<not> length (buffer st) < length ?h + 4 + parseInt (decimal (length p))"
    unfolding e by (simp add: assms)
  from pb_emit [OF idx hm this, of n] show ?thesis
    unfolding e by (simp add: assms slice_def del: process_buffer.simps)
qed

lemma frame_partial:
  assumes "buffer st = take m (frame p)" and "m < length (frame p)"
  shows "process_buffer n st = st"
proof (cases n)
  case 0
  then show ?thesis by simp
next
  case (Suc k)
  let ?h = "header (length p)"
  show ?thesis
  proof (cases "m < length ?h + 4")
    case True
    then have "take m ((?h @ CRLF2) @ p) = take m (?h @ CRLF2)"
      by (subst take_append) (simp add: CRLF2_def)
    then have eq: "take m (frame p) = take m (?h @ CRLF2)"
      by (simp add: frame_def)
    have "indexOf (take m (?h @ CRLF2)) CRLF2 = None"
      using header_no_CR True by (rule indexOf_partial)
    then have "indexOf (buffer st) CRLF2 = None"
      by (simp only: assms(1) eq)
    then show ?thesis unfolding Suc by (rule pb_none)
  next
    case False
    then have "take m ((?h @ CRLF2) @ p) = (?h @ CRLF2) @ take (m - length (?h @ CRLF2)) p"
      by (subst take_append) (simp add: length_CRLF2)
    then have buf: "buffer st = ?h @ CRLF2 @ take (m - length ?h - 4) p"
      by (simp add: assms(1) frame_def length_CRLF2)
    have idx: "indexOf (buffer st) CRLF2 = Some (length ?h)"
      unfolding buf by (rule indexOf_header) (rule header_no_CR)
    have "slice (buffer st) 0 (length ?h) = ?h"
      by (simp add: buf slice_def)
    then have hm: "header_match (toString (slice (buffer st) 0 (length ?h))) = Some (decimal (length p))"
      by (simp add: header_match_header)
    have "length (buffer st) < length ?h + 4 + parseInt (decimal (length p))"
      using assms(2) by (simp add: assms(1) parseInt_decimal length_frame)
    from pb_wait [OF idx hm this] show ?thesis unfolding Suc .
  qed
qed

lemma process_buffer_empty: "buffer st = [] \<Longrightarrow> process_buffer n st = st"
  by (cases n) (simp_all add: CRLF2_def)

section \<open>Draining whole frames\<close>

lemma drain_frames:
  "readyState st = OPEN \<Longrightarrow> buffer st = concat (map frame ps) @ rest \<Longrightarrow>
   length ps \<le> n \<Longrightarrow>
   process_buffer n st =
     process_buffer (n - length ps) (st\<lparr>buffer := rest, sent := sent st @ map frame ps\<rparr>)"
proof (induction ps arbitrary: n st)
  case Nil
  then have "st\<lparr>buffer := rest, sent := sent st @ map frame []\<rparr> = st"
    by (cases st) simp
  then show ?case by simp
next
  case (Cons p ps)
  from Cons.prems(3) obtain k where n: "n = Suc k" and k: "length ps \<le> k"
    by (cases n) auto
  have "buffer st = frame p @ (concat (map frame ps) @ rest)"
    using Cons.prems(2) by simp
  then have "process_buffer (Suc k) st =
      process_buffer k (ws_send (frame p) (st\<lparr>buffer := concat (map frame ps) @ rest\<rparr>))"
    using Cons.prems(1) by (simp add: frame_step del: process_buffer.simps)
  also have "\<dots> = process_buffer (k - length ps)
      ((ws_send (frame p) (st\<lparr>buffer := concat (map frame ps) @ rest\<rparr>))
         \<lparr>buffer := rest,
          sent := sent (ws_send (frame p) (st\<lparr>buffer := concat (map frame ps) @ rest\<rparr>))
                    @ map frame ps\<rparr>)"
    by (rule Cons.IH) (use Cons.prems(1) k in \<open>simp_all add: ws_send_def\<close>)
  finally show ?case
    by (simp add: n ws_send_def del: process_buffer.simps)
qed

lemma sent_bound:
  "length (sent (process_buffer n st)) \<le> length (sent st) + n"
proof (induction n arbitrary: st)
  case 0
  show ?case by simp
next
  case (Suc n)
  show ?case
  proof (cases st rule: pb_cases)
    case none
    then show ?thesis by (simp add: pb_none del: process_buffer.simps)
  next
    case (skip h)
    have "length (sent (process_buffer n (st\<lparr>buffer := drop (h + 4) (buffer st)\<rparr>)))
        \<le> length (sent (st\<lparr>buffer := drop (h + 4) (buffer st)\<rparr>)) + n"
      by (rule Suc.IH)
    with skip show ?thesis by (simp add: pb_skip del: process_buffer.simps)
  next
    case (wait h m)
    then show ?thesis by (simp add: pb_wait del: process_buffer.simps)
  next
    case (emit h m)
    let ?e = "h + 4 + parseInt m"
    let ?next = "if readyState st = OPEN
        then ws_send (slice (buffer st) 0 ?e) (st\<lparr>buffer := drop ?e (buffer st)\<rparr>)
        else st\<lparr>buffer := drop ?e (buffer st)\<rparr>"
    have "length (sent (process_buffer n ?next)) \<le> length (sent ?next) + n"
      by (rule Suc.IH)
    moreover have "length (sent ?next) \<le> length (sent st) + 1"
      by (simp add: ws_send_def)
    ultimately show ?thesis using emit by (simp add: pb_emit del: process_buffer.simps)
  qed
qed


lemma drain_take:
  assumes "readyState st = OPEN" and "buffer st = concat (map frame ps)"
  shows "process_buffer n st =
         st\<lparr>buffer := concat (map frame (drop n ps)), sent := sent st @ map frame (take n ps)\<rparr>"
proof -
  let ?st' = "st\<lparr>buffer := concat (map frame (drop n ps)),
                 sent := sent st @ map frame (take n ps)\<rparr>"
  have "concat (map frame ps) = concat (map frame (take n ps @ drop n ps))"
    by simp
  then have "buffer st = concat (map frame (take n ps)) @ concat (map frame (drop n ps))"
    unfolding assms(2) by (simp only: map_append concat_append)
  with assms(1) have "process_buffer n st = process_buffer (n - length (take n ps)) ?st'"
    by (rule drain_frames) simp
  also have "\<dots> = ?st'"
  proof (cases "n \<le> length ps")
    case True
    then show ?thesis by (simp add: min_def)
  next
    case False
    then show ?thesis by (intro process_buffer_empty) simp
  qed
  finally show ?thesis .
qed

lemma frame_nonempty: "frame p \<noteq> []"
  by (simp add: frame_def CRLF2_def)

lemma drain_prefix:
  "readyState st = OPEN \<Longrightarrow> buffer st @ t = concat (map frame ps) \<Longrightarrow>
   \<exists>j b. j \<le> length ps \<and> buffer st = concat (map frame (take j ps)) @ b \<and>
         process_buffer n st = st\<lparr>buffer := b, sent := sent st @ map frame (take j ps)\<rparr>"
proof (induction n arbitrary: st ps)
  case 0
  have "st\<lparr>buffer := buffer st, sent := sent st @ map frame (take 0 ps)\<rparr> = st"
    by (cases st) simp
  then have "0 \<le> length ps \<and> buffer st = concat (map frame (take 0 ps)) @ buffer st \<and>
      process_buffer 0 st = st\<lparr>buffer := buffer st, sent := sent st @ map frame (take 0 ps)\<rparr>"
    by simp
  then show ?case by blast
next
  case (Suc n)
  have same: "st\<lparr>buffer := buffer st, sent := sent st @ map frame (take 0 ps)\<rparr> = st"
    by (cases st) simp
  show ?case
  proof (cases ps)
    case Nil
    with Suc.prems have "buffer st = []" by simp
    then have "process_buffer (Suc n) st = st" by (rule process_buffer_empty)
    with same have "0 \<le> length ps \<and> buffer st = concat (map frame (take 0 ps)) @ buffer st \<and>
        process_buffer (Suc n) st =
          st\<lparr>buffer := buffer st, sent := sent st @ map frame (take 0 ps)\<rparr>"
      by simp
    then show ?thesis by blast
  next
    case (Cons p qs)
    with Suc.prems have eq: "buffer st @ t = frame p @ concat (map frame qs)"
      by simp
    show ?thesis
    proof (cases "length (buffer st) < length (frame p)")
      case True
      from eq have "take (length (buffer st)) (buffer st @ t) =
          take (length (buffer st)) (frame p @ concat (map frame qs))"
        by simp
      with True have "buffer st = take (length (buffer st)) (frame p)"
        by simp
      then have "process_buffer (Suc n) st = st"
        using True by (rule frame_partial)
      with same have "0 \<le> length ps \<and> buffer st = concat (map frame (take 0 ps)) @ buffer st \<and>
          process_buffer (Suc n) st =
            st\<lparr>buffer := buffer st, sent := sent st @ map frame (take 0 ps)\<rparr>"
        by simp
      then show ?thesis by blast
    next
      case False
      from eq have "take (length (frame p)) (buffer st @ t) = frame p"
        by simp
      with False have pre: "take (length (frame p)) (buffer st) = frame p"
        by simp
      define b1 where "b1 = drop (length (frame p)) (buffer st)"
      from pre have buf: "buffer st = frame p @ b1"
        unfolding b1_def by (metis append_take_drop_id)
      with eq have rest: "b1 @ t = concat (map frame qs)"
        by simp
      let ?st1 = "ws_send (frame p) (st\<lparr>buffer := b1\<rparr>)"
      have step: "process_buffer (Suc n) st = process_buffer n ?st1"
        using Suc.prems(1) by (simp add: frame_step [OF buf] del: process_buffer.simps)
      have "\<exists>j b. j \<le> length qs \<and> buffer ?st1 = concat (map frame (take j qs)) @ b \<and>
          process_buffer n ?st1 = ?st1\<lparr>buffer := b, sent := sent ?st1 @ map frame (take j qs)\<rparr>"
        by (rule Suc.IH) (use Suc.prems(1) rest in \<open>simp_all add: ws_send_def\<close>)
      then obtain j b where j: "j \<le> length qs"
        and b: "buffer ?st1 = concat (map frame (take j qs)) @ b"
        and res: "process_buffer n ?st1 =
                  ?st1\<lparr>buffer := b, sent := sent ?st1 @ map frame (take j qs)\<rparr>"
        by blast
      from b have "b1 = concat (map frame (take j qs)) @ b"
        by (simp add: ws_send_def)
      with buf Cons have "buffer st = concat (map frame (take (Suc j) ps)) @ b"
        by simp
      moreover from step res Cons have "process_buffer (Suc n) st =
          st\<lparr>buffer := b, sent := sent st @ map frame (take (Suc j) ps)\<rparr>"
        by (simp add: ws_send_def del: process_buffer.simps)
      moreover from j Cons have "Suc j \<le> length ps" by simp
      ultimately show ?thesis by blast
    qed
  qed
qed

section \<open>Feeding a stream of frames in chunks\<close>

lemma on_stdout_data_open: "readyState (on_stdout_data data st) = readyState st"
  by (simp add: on_stdout_data_def process_buffer_socket)

lemma concat_frames_cancel:
  assumes "concat (map frame (take k ps)) @ x = concat (map frame ps)"
  shows "x = concat (map frame (drop k ps))"
proof -
  have "concat (map frame ps) = concat (map frame (take k ps @ drop k ps))"
    by simp
  then have "concat (map frame ps) =
      concat (map frame (take k ps)) @ concat (map frame (drop k ps))"
    by (simp only: map_append concat_append)
  with assms show ?thesis by simp
qed

lemma feed_prefix:
  "readyState st = OPEN \<Longrightarrow> k \<le> length ps \<Longrightarrow>
   sent st = s0 @ map frame (take k ps) \<Longrightarrow>
   concat (map frame (take k ps)) @ buffer st @ concat chunks @ t = concat (map frame ps) \<Longrightarrow>
   \<exists>k'. k' \<le> length ps \<and> readyState (feed st chunks) = OPEN \<and>
        sent (feed st chunks) = s0 @ map frame (take k' ps) \<and>
        concat (map frame (take k' ps)) @ buffer (feed st chunks) @ t = concat (map frame ps)"
proof (induction chunks arbitrary: st k)
  case Nil
  then show ?case by (auto simp: feed_def)
next
  case (Cons c cs)
  let ?st0 = "st\<lparr>buffer := buffer st @ c\<rparr>"
  let ?st1 = "on_stdout_data c st"
  from Cons.prems(4) have "buffer ?st0 @ (concat cs @ t) = concat (map frame (drop k ps))"
    by (intro concat_frames_cancel) simp
  with Cons.prems(1) have "\<exists>j b. j \<le> length (drop k ps) \<and>
      buffer ?st0 = concat (map frame (take j (drop k ps))) @ b \<and>
      process_buffer 100 ?st0 =
        ?st0\<lparr>buffer := b, sent := sent ?st0 @ map frame (take j (drop k ps))\<rparr>"
    by (intro drain_prefix) simp_all
  then obtain j b where j: "j \<le> length (drop k ps)"
    and b: "buffer st @ c = concat (map frame (take j (drop k ps))) @ b"
    and res: "?st1 = ?st0\<lparr>buffer := b, sent := sent st @ map frame (take j (drop k ps))\<rparr>"
    unfolding on_stdout_data_def by auto
  have tk: "take (k + j) ps = take k ps @ take j (drop k ps)"
    by (simp add: take_add)
  have 1: "readyState ?st1 = OPEN"
    using Cons.prems(1) by (simp add: on_stdout_data_open)
  have 2: "k + j \<le> length ps"
    using j Cons.prems(2) by simp
  have 3: "sent ?st1 = s0 @ map frame (take (k + j) ps)"
    by (simp add: res tk Cons.prems(3))
  have e: "concat (map frame (take (k + j) ps)) @ buffer ?st1 =
      concat (map frame (take k ps)) @ buffer st @ c"
    by (simp add: res tk b)
  have "concat (map frame (take (k + j) ps)) @ buffer ?st1 @ concat cs @ t =
      (concat (map frame (take (k + j) ps)) @ buffer ?st1) @ concat cs @ t"
    by simp
  also have "\<dots> = (concat (map frame (take k ps)) @ buffer st @ c) @ concat cs @ t"
    by (simp only: e)
  also have "\<dots> = concat (map frame (take k ps)) @ buffer st @ concat (c # cs) @ t"
    by simp
  also have "\<dots> = concat (map frame ps)"
    by (rule Cons.prems(4))
  finally have 4: "concat (map frame (take (k + j) ps)) @ buffer ?st1 @ concat cs @ t =
      concat (map frame ps)" .
  have "\<exists>k'. k' \<le> length ps \<and> readyState (feed ?st1 cs) = OPEN \<and>
        sent (feed ?st1 cs) = s0 @ map frame (take k' ps) \<and>
        concat (map frame (take k' ps)) @ buffer (feed ?st1 cs) @ t = concat (map frame ps)"
    using 1 2 3 4 by (rule Cons.IH)
  then show ?case by (simp add: feed_def)
qed

section \<open>A chunk that completes a run of frames\<close>

lemma concat_frames_empty: "concat (map frame ps) = [] \<Longrightarrow> ps = []"
  by (cases ps) (simp_all add: frame_nonempty)

lemma on_stdout_data_frames:
  assumes "readyState st = OPEN" and "buffer st @ data = concat (map frame ps)"
  shows "on_stdout_data data st =
         st\<lparr>buffer := concat (map frame (drop 100 ps)),
            sent := sent st @ map frame (take 100 ps)\<rparr>"
proof -
  have "process_buffer 100 (st\<lparr>buffer := buffer st @ data\<rparr>) =
      (st\<lparr>buffer := buffer st @ data\<rparr>)
        \<lparr>buffer := concat (map frame (drop 100 ps)),
         sent := sent (st\<lparr>buffer := buffer st @ data\<rparr>) @ map frame (take 100 ps)\<rparr>"
    by (rule drain_take) (simp_all add: assms)
  then show ?thesis by (simp add: on_stdout_data_def)
qed

lemma char_of_digits:
  "char_of (48::nat) = CHR ''0''" "char_of (49::nat) = CHR ''1''" "char_of (50::nat) = CHR ''2''"
  "char_of (51::nat) = CHR ''3''" "char_of (52::nat) = CHR ''4''" "char_of (53::nat) = CHR ''5''"
  "char_of (54::nat) = CHR ''6''" "char_of (55::nat) = CHR ''7''" "char_of (56::nat) = CHR ''8''"
  "char_of (57::nat) = CHR ''9''"
  by (simp_all add: char_of_eq_iff)

lemma feed_snoc: "feed st (cs @ [c]) = on_stdout_data c (feed st cs)"
  by (simp add: feed_def)

lemma take_min_length: "take (min (length ps) n) ps = take n ps"
  by (simp add: min_def)

lemma drop_min_length: "drop (min (length ps) n) ps = drop n ps"
  by (simp add: min_def)

section \<open>Running the loop on a given buffer\<close>

text \<open>One iteration at a numeral bound, for evaluating the loop on concrete buffers.\<close>

lemma process_buffer_numeral:
  "process_buffer (numeral k) st =
     (case indexOf (buffer st) CRLF2 of
        None \<Rightarrow> st
      | Some headerEnd \<Rightarrow>
          (case header_match (toString (slice (buffer st) 0 headerEnd)) of
             None \<Rightarrow> process_buffer (pred_numeral k) (st\<lparr>buffer := drop (headerEnd + 4) (buffer st)\<rparr>)
           | Some m1 \<Rightarrow>
               if length (buffer st) < headerEnd + 4 + parseInt m1 then st
               else process_buffer (pred_numeral k)
                      (if readyState st = OPEN
                       then ws_send (slice (buffer st) 0 (headerEnd + 4 + parseInt m1))
                              (st\<lparr>buffer := drop (headerEnd + 4 + parseInt m1) (buffer st)\<rparr>)
                       else st\<lparr>buffer := drop (headerEnd + 4 + parseInt m1) (buffer st)\<rparr>)))"
proof -
  have "process_buffer (numeral k) st = process_buffer (Suc (pred_numeral k)) st"
    by (simp only: numeral_eq_Suc)
  also have "\<dots> =
     (case indexOf (buffer st) CRLF2 of
        None \<Rightarrow> st
      | Some headerEnd \<Rightarrow>
          (case header_match (toString (slice (buffer st) 0 headerEnd)) of
             None \<Rightarrow> process_buffer (pred_numeral k) (st\<lparr>buffer := drop (headerEnd + 4) (buffer st)\<rparr>)
           | Some m1 \<Rightarrow>
               if length (buffer st) < headerEnd + 4 + parseInt m1 then st
               else process_buffer (pred_numeral k)
                      (if readyState st = OPEN
                       then ws_send (slice (buffer st) 0 (headerEnd + 4 + parseInt m1))
                              (st\<lparr>buffer := drop (headerEnd + 4 + parseInt m1) (buffer st)\<rparr>)
                       else st\<lparr>buffer := drop (headerEnd + 4 + parseInt m1) (buffer st)\<rparr>)))"
    by (simp add: Let_def split: option.splits)
  finally show ?thesis .
qed

lemmas eval_defs = on_stdout_data_def CRLF2_def CR_def LF_def slice_def toString_def
  utf8_step_def utf8_lead_def utf8_init_def code_units_def match_here_def
  content_length_literal_def canonicalize_def is_space_def is_digit_def parseInt_def
  ws_send_def connect_def Let_def process_buffer_numeral

section \<open>A socket that is not open stays so\<close>

lemma deliver_not_open:
  "readyState st \<noteq> OPEN \<Longrightarrow>
   readyState (deliver st ev) \<noteq> OPEN \<and> sent (deliver st ev) = sent st"
  by (cases ev) (simp_all add: on_child_error_def on_child_exit_def ws_close_def on_stdout_data_def
      process_buffer_socket process_buffer_not_open on_ws_message_def on_ws_close_def
      on_ws_error_def child_kill_def)

lemma run_not_open:
  "readyState st \<noteq> OPEN \<Longrightarrow> sent (run st evs) = sent st"
  unfolding run_def
  by (induction evs arbitrary: st) (simp_all add: deliver_not_open del: deliver.simps)

section \<open>\<^verbatim>\<open>parseMessages\<close>, one iteration at a time\<close>

lemma parse_loop_step:
  assumes "pos < length buf"
    and "indexOf_from buf CRLF2_text pos = Some h"
    and "header_match (slice buf pos h) = Some m"
    and "h + 4 + parseInt m \<le> length buf"
  shows "parse_loop JSON_parse buf pos msgs =
         parse_loop JSON_parse buf (h + 4 + parseInt m)
           (case JSON_parse (slice buf (h + 4) (h + 4 + parseInt m)) of
              Some v \<Rightarrow> msgs @ [v]
            | None \<Rightarrow> msgs)"
  using assms by (subst parse_loop.simps) (simp add: Let_def)

lemma parse_loop_end:
  "\<not> pos < length buf \<Longrightarrow> parse_loop JSON_parse buf pos msgs = (msgs, pos)"
  by (subst parse_loop.simps) simp

lemma parse_loop_no_header:
  assumes "indexOf_from buf CRLF2_text pos = Some h"
    and "header_match (slice buf pos h) = None"
  shows "parse_loop JSON_parse buf pos msgs = (msgs, pos)"
  using assms by (subst parse_loop.simps) simp

lemma length_CRLF2_text: "length CRLF2_text = 4"
  by (simp add: CRLF2_text_def)

text \<open>
  \<^verbatim>\<open>parseMessages\<close> takes the declared length as a number of code units of the string.
  A header that declares as many units as follow it, with content that \<^verbatim>\<open>JSON.parse\<close>
  rejects, is consumed with its content and no message is pushed for it.
\<close>

lemma parseMessages_skips_malformed_json:
  assumes "indexOf (hdr @ CRLF2_text) CRLF2_text = Some (length hdr)"
    and "header_match hdr = Some m"
    and "parseInt m = length bad"
    and "JSON_parse bad = None"
  shows "parseMessages JSON_parse (hdr @ CRLF2_text @ bad) = \<lparr>messages = [], remainder = []\<rparr> \<and>
         parse_loop JSON_parse (hdr @ CRLF2_text @ bad @ rest) 0 [] =
           parse_loop JSON_parse (hdr @ CRLF2_text @ bad @ rest) (length (hdr @ CRLF2_text @ bad)) []"
proof -
  have skip: "parse_loop JSON_parse (hdr @ CRLF2_text @ bad @ rest) 0 [] =
      parse_loop JSON_parse (hdr @ CRLF2_text @ bad @ rest) (length (hdr @ CRLF2_text @ bad)) []"
    for rest
  proof -
    let ?buf = "hdr @ CRLF2_text @ bad @ rest"
    have 1: "0 < length ?buf"
      by (simp add: length_CRLF2_text)
    have "indexOf ((hdr @ CRLF2_text) @ bad @ rest) CRLF2_text = Some (length hdr)"
      using assms(1) by (rule indexOf_append)
    then have 2: "indexOf_from ?buf CRLF2_text 0 = Some (length hdr)"
      by (simp add: indexOf_from_def)
    have 3: "header_match (slice ?buf 0 (length hdr)) = Some m"
      using assms(2) by (simp add: slice_def)
    have 4: "length hdr + 4 + parseInt m \<le> length ?buf"
      by (simp add: assms(3) length_CRLF2_text)
    have 5: "slice ?buf (length hdr + 4) (length hdr + 4 + parseInt m) = bad"
      by (simp add: slice_def assms(3) length_CRLF2_text)
    from parse_loop_step [OF 1 2 3 4, of JSON_parse "[]"] show ?thesis
      unfolding 5 by (simp add: assms(3,4) length_CRLF2_text add.assoc)
  qed
  let ?span = "hdr @ CRLF2_text @ bad"
  have "parse_loop JSON_parse (?span @ []) 0 [] = ([], length ?span)"
    using skip [of "[]"] by (simp add: parse_loop_end)
  then have "parseMessages JSON_parse ?span = \<lparr>messages = [], remainder = []\<rparr>"
    by (simp add: parseMessages_def)
  with skip [of rest] show ?thesis by simp
qed

text \<open>
  On the wire \<^verbatim>\<open>Content-Length\<close> counts bytes (the writer of the same file computes it
  with \<^verbatim>\<open>TextEncoder\<close>), so with a payload outside ASCII the declared length exceeds the
  number of code units. The three units of a payload of four bytes, followed by another
  frame: the content taken is one unit too long, and the loop then stops inside the next
  header.
\<close>

lemma parseMessages_counts_code_units:
  assumes "JSON_parse (map of_char ''{'' @ [233] @ map of_char ''}C'') = None"
  shows "parseMessages JSON_parse
           (map of_char ''Content-Length: 4'' @ CRLF2_text @ map of_char ''{'' @ [233] @
            map of_char ''}'' @ map of_char ''Content-Length: 2'' @ CRLF2_text @ map of_char ''{}'') =
         \<lparr>messages = [],
          remainder = map of_char ''ontent-Length: 2'' @ CRLF2_text @ map of_char ''{}''\<rparr>"
proof -
  let ?buf = "map of_char ''Content-Length: 4'' @ CRLF2_text @ map of_char ''{'' @ [233] @
      map of_char ''}'' @ map of_char ''Content-Length: 2'' @ CRLF2_text @ map of_char ''{}''"
  have 1: "(0::nat) < length ?buf"
    by (simp add: CRLF2_text_def)
  have 2: "indexOf_from ?buf CRLF2_text 0 = Some 17"
    by (simp add: indexOf_from_def CRLF2_text_def)
  have 3: "header_match (slice ?buf 0 17) = Some [52]"
    by (simp add: eval_defs CRLF2_text_def)
  have 4: "17 + 4 + parseInt [52] \<le> length ?buf"
    by (simp add: parseInt_def CRLF2_text_def)
  have 5: "slice ?buf (17 + 4) (17 + 4 + parseInt [52]) = map of_char ''{'' @ [233] @ map of_char ''}C''"
    by (simp add: slice_def parseInt_def CRLF2_text_def)
  have 6: "17 + 4 + parseInt [52] = 25"
    by (simp add: parseInt_def)
  have "(case JSON_parse (slice ?buf (17 + 4) (17 + 4 + parseInt [52])) of
          Some v \<Rightarrow> [] @ [v] | None \<Rightarrow> []) = []"
    by (simp only: 5 assms option.case)
  with parse_loop_step [OF 1 2 3 4, of JSON_parse "[]"]
  have first: "parse_loop JSON_parse ?buf 0 [] = parse_loop JSON_parse ?buf 25 []"
    by (simp only: 6)
  have 7: "indexOf_from ?buf CRLF2_text 25 = Some 41"
    by (simp add: indexOf_from_def CRLF2_text_def)
  have 8: "header_match (slice ?buf 25 41) = None"
    by (simp add: eval_defs CRLF2_text_def)
  have "parse_loop JSON_parse ?buf 25 [] = ([], 25)"
    using 7 8 by (rule parse_loop_no_header)
  with first have "parse_loop JSON_parse ?buf 0 [] = ([], 25)"
    by simp
  then show ?thesis
    by (simp add: parseMessages_def CRLF2_text_def)
qed

text \<open>
  At a header block without \<^verbatim>\<open>Content-Length\<close>, \<^verbatim>\<open>parseMessages\<close> does not do what the
  proxy does: it leaves the loop and returns the whole buffer as the remainder, so the
  next call stops at the same place.
\<close>

lemma parseMessages_stops_at_malformed_header:
  assumes "indexOf (garbage @ CRLF2_text) CRLF2_text = Some (length garbage)"
    and "header_match garbage = None"
  shows "parseMessages JSON_parse (garbage @ CRLF2_text @ rest) =
         \<lparr>messages = [], remainder = garbage @ CRLF2_text @ rest\<rparr>"
proof -
  let ?buf = "garbage @ CRLF2_text @ rest"
  have "indexOf ((garbage @ CRLF2_text) @ rest) CRLF2_text = Some (length garbage)"
    using assms(1) by (rule indexOf_append)
  then have 1: "indexOf_from ?buf CRLF2_text 0 = Some (length garbage)"
    by (simp add: indexOf_from_def)
  have 2: "header_match (slice ?buf 0 (length garbage)) = None"
    using assms(2) by (simp add: slice_def)
  have "parse_loop JSON_parse ?buf 0 [] = ([], 0)"
    using 1 2 by (rule parse_loop_no_header)
  then show ?thesis
    by (simp add: parseMessages_def)
qed

section \<open>Round trip\<close>

text \<open>
  C1, as the code has it. Take any frames, concatenate them and cut the stream into
  chunks at arbitrary places; feed the chunks to an open connection with an empty buffer.
  What has been sent is then a prefix of the sequence of frames, each forwarded whole
  (header, blank line and payload), in order, none twice; the frames not yet sent are
  exactly what the buffer holds, so no byte is lost. At least the first hundred frames
  have been sent, and with at most a hundred frames all of them have.
\<close>

theorem C1_round_trip_up_to_cap:
  assumes "readyState st = OPEN" and "buffer st = []"
    and "concat chunks = concat (map frame ps)"
  shows "(\<exists>k. min (length ps) 100 \<le> k \<and> k \<le> length ps \<and>
            sent (feed st chunks) = sent st @ map frame (take k ps) \<and>
            buffer (feed st chunks) = concat (map frame (drop k ps))) \<and>
         (length ps \<le> 100 \<longrightarrow>
            sent (feed st chunks) = sent st @ map frame ps \<and> buffer (feed st chunks) = [])"
proof -
  have ex: "\<exists>k. min (length ps) 100 \<le> k \<and> k \<le> length ps \<and>
            sent (feed st chunks) = sent st @ map frame (take k ps) \<and>
            buffer (feed st chunks) = concat (map frame (drop k ps))"
  proof (cases chunks rule: rev_cases)
    case Nil
    with assms(3) have "ps = []"
      by (simp add: concat_frames_empty)
    with Nil assms(2) show ?thesis
      by (simp add: feed_def)
  next
    case (snoc cs c)
    let ?st1 = "feed st cs"
    have "concat (map frame (take 0 ps)) @ buffer st @ concat cs @ c = concat (map frame ps)"
      using assms(2,3) snoc by simp
    with assms(1) have "\<exists>k'. k' \<le> length ps \<and> readyState ?st1 = OPEN \<and>
        sent ?st1 = sent st @ map frame (take k' ps) \<and>
        concat (map frame (take k' ps)) @ buffer ?st1 @ c = concat (map frame ps)"
      by (intro feed_prefix [where k = 0]) simp_all
    then obtain k1 where k1: "k1 \<le> length ps" and op: "readyState ?st1 = OPEN"
      and s1: "sent ?st1 = sent st @ map frame (take k1 ps)"
      and b1: "concat (map frame (take k1 ps)) @ buffer ?st1 @ c = concat (map frame ps)"
      by blast
    from b1 have "buffer ?st1 @ c = concat (map frame (drop k1 ps))"
      by (rule concat_frames_cancel)
    with op have last: "on_stdout_data c ?st1 =
        ?st1\<lparr>buffer := concat (map frame (drop 100 (drop k1 ps))),
             sent := sent ?st1 @ map frame (take 100 (drop k1 ps))\<rparr>"
      by (rule on_stdout_data_frames)
    let ?k = "min (length ps) (k1 + 100)"
    have "take ?k ps = take k1 ps @ take 100 (drop k1 ps)"
      by (simp only: take_min_length take_add)
    moreover have "drop ?k ps = drop 100 (drop k1 ps)"
      by (simp only: drop_min_length drop_drop add.commute)
    ultimately have "sent (feed st chunks) = sent st @ map frame (take ?k ps)"
      and "buffer (feed st chunks) = concat (map frame (drop ?k ps))"
      by (simp_all add: snoc feed_snoc last s1)
    moreover have "min (length ps) 100 \<le> ?k" and "?k \<le> length ps"
      by simp_all
    ultimately show ?thesis by blast
  qed
  moreover have "sent (feed st chunks) = sent st @ map frame ps \<and> buffer (feed st chunks) = []"
    if "length ps \<le> 100"
  proof -
    from ex obtain k where "min (length ps) 100 \<le> k" "k \<le> length ps"
      and r: "sent (feed st chunks) = sent st @ map frame (take k ps)"
        "buffer (feed st chunks) = concat (map frame (drop k ps))"
      by blast
    with that have "k = length ps" by simp
    with r show ?thesis by simp
  qed
  ultimately show ?thesis by blast
qed

theorem C1_round_trip_up_to_cap_witness:
  "readyState (connect True) = OPEN \<and> buffer (connect True) = [] \<and>
   concat [''Content-Length: 2'' @ [CR], [LF, CR, LF] @ ''{'', ''}'' @ frame ''[1]''] =
     concat (map frame [''{}'', ''[1]'']) \<and>
   sent (feed (connect True)
          [''Content-Length: 2'' @ [CR], [LF, CR, LF] @ ''{'', ''}'' @ frame ''[1]'']) =
     [frame ''{}'', frame ''[1]''] \<and>
   buffer (feed (connect True)
          [''Content-Length: 2'' @ [CR], [LF, CR, LF] @ ''{'', ''}'' @ frame ''[1]'']) = []"
proof -
  have h1: "readyState (connect True) = OPEN" and h2: "buffer (connect True) = []"
    by (simp_all add: connect_def)
  have h3: "concat [''Content-Length: 2'' @ [CR], [LF, CR, LF] @ ''{'', ''}'' @ frame ''[1]''] =
      concat (map frame [''{}'', ''[1]''])"
    by (simp add: frame_def header_def decimal.simps char_of_digits CRLF2_def)
  from C1_round_trip_up_to_cap [OF h1 h2 h3] h1 h2 h3 show ?thesis
    by (simp add: connect_def)
qed

text \<open>
  C1 as stated fails beyond the cap: of 101 frames arriving in one chunk, a hundred are
  forwarded and the last one waits in the buffer for the next chunk.
\<close>

theorem C1_round_trip_counterexample:
  "concat [concat (map frame (replicate 101 ''{}''))] = concat (map frame (replicate 101 ''{}'')) \<and>
   sent (feed (connect True) [concat (map frame (replicate 101 ''{}''))]) =
     replicate 100 (frame ''{}'') \<and>
   buffer (feed (connect True) [concat (map frame (replicate 101 ''{}''))]) = frame ''{}'' \<and>
   sent (feed (connect True) [concat (map frame (replicate 101 ''{}''))]) \<noteq>
     map frame (replicate 101 ''{}'')"
proof -
  have "on_stdout_data (concat (map frame (replicate 101 ''{}''))) (connect True) =
      (connect True)\<lparr>buffer := concat (map frame (drop 100 (replicate 101 ''{}''))),
         sent := sent (connect True) @ map frame (take 100 (replicate 101 ''{}''))\<rparr>"
    by (rule on_stdout_data_frames) (simp_all add: connect_def)
  then have "sent (feed (connect True) [concat (map frame (replicate 101 ''{}''))]) =
      replicate 100 (frame ''{}'')"
    and "buffer (feed (connect True) [concat (map frame (replicate 101 ''{}''))]) = frame ''{}''"
    by (simp_all add: feed_def connect_def)
  moreover have "length (replicate 100 (frame ''{}'')) \<noteq> length (map frame (replicate 101 ''{}''))"
    by simp
  then have "replicate 100 (frame ''{}'') \<noteq> map frame (replicate 101 ''{}'')"
    by metis
  ultimately show ?thesis by simp
qed

section \<open>Partial frames\<close>

lemma process_buffer_100: "process_buffer 100 st = process_buffer (Suc 99) st"
  by simp

lemma slice_append: "b \<le> length xs \<Longrightarrow> slice (xs @ ys) 0 b = slice xs 0 b"
  by (simp add: slice_def)

text \<open>
  C2. When a chunk leaves the buffer starting with a complete header that declares \<open>N\<close>
  bytes, with fewer than \<open>N\<close> bytes after the blank line, the handler sends nothing and
  keeps the buffer as it is; when the missing bytes arrive, it sends exactly one message,
  the whole frame with its \<open>N\<close> bytes of payload, and the buffer is empty.
\<close>

theorem C2_partial_frame_retained:
  assumes "indexOf (buffer st @ data) CRLF2 = Some headerEnd"
    and "header_match (toString (slice (buffer st @ data) 0 headerEnd)) = Some m"
    and "length (buffer st @ data) < headerEnd + 4 + parseInt m"
    and "length (buffer st @ data @ later) = headerEnd + 4 + parseInt m"
    and "readyState st = OPEN"
  shows "on_stdout_data data st = st\<lparr>buffer := buffer st @ data\<rparr> \<and>
         sent (on_stdout_data later (on_stdout_data data st)) = sent st @ [buffer st @ data @ later] \<and>
         buffer (on_stdout_data later (on_stdout_data data st)) = [] \<and>
         length (drop (headerEnd + 4) (buffer st @ data @ later)) = parseInt m"
proof -
  let ?b = "buffer st @ data"
  let ?st1 = "st\<lparr>buffer := ?b\<rparr>"
  let ?e = "headerEnd + 4 + parseInt m"
  have first: "on_stdout_data data st = ?st1"
    unfolding on_stdout_data_def process_buffer_100
    by (rule pb_wait [where h = headerEnd and m = m]) (use assms in simp_all)
  let ?st2 = "?st1\<lparr>buffer := ?b @ later\<rparr>"
  have idx: "indexOf (buffer ?st2) CRLF2 = Some headerEnd"
    using indexOf_append [OF assms(1), of later] by simp
  have "headerEnd + 4 \<le> length ?b"
    using indexOf_bound [OF assms(1)] by (simp add: length_CRLF2)
  then have "slice (?b @ later) 0 headerEnd = slice ?b 0 headerEnd"
    by (intro slice_append) simp
  with assms(2) have hm: "header_match (toString (slice (buffer ?st2) 0 headerEnd)) = Some m"
    by simp
  have full: "\<not> length (buffer ?st2) < ?e"
    using assms(4) by simp
  have "process_buffer (Suc 99) ?st2 =
      process_buffer 99 (ws_send (slice (buffer ?st2) 0 ?e) (?st2\<lparr>buffer := drop ?e (buffer ?st2)\<rparr>))"
    using pb_emit [OF idx hm full, of 99] assms(5) by (simp del: process_buffer.simps)
  also have "\<dots> = ws_send (slice (buffer ?st2) 0 ?e) (?st2\<lparr>buffer := drop ?e (buffer ?st2)\<rparr>)"
    by (rule process_buffer_empty) (use assms(4) in \<open>simp add: ws_send_def\<close>)
  finally have second: "on_stdout_data later ?st1 =
      ws_send (slice (buffer ?st2) 0 ?e) (?st2\<lparr>buffer := drop ?e (buffer ?st2)\<rparr>)"
    by (simp add: on_stdout_data_def del: process_buffer.simps)
  have "slice (?b @ later) 0 ?e = ?b @ later"
    using assms(4) by (simp add: slice_def)
  then have "sent (on_stdout_data later ?st1) = sent st @ [?b @ later]"
    and "buffer (on_stdout_data later ?st1) = []"
    using assms(4) by (simp_all add: second ws_send_def)
  moreover have "length (drop (headerEnd + 4) (buffer st @ data @ later)) = parseInt m"
    using assms(4) by simp
  ultimately show ?thesis
    by (simp add: first)
qed

theorem C2_partial_frame_retained_witness:
  "indexOf (buffer (connect True) @ ''Content-Length: 7'' @ CRLF2 @ ''[1,'') CRLF2 = Some 17 \<and>
   header_match (toString (slice (buffer (connect True) @ ''Content-Length: 7'' @ CRLF2 @ ''[1,'') 0 17))
     = Some [55] \<and>
   parseInt [55] = 7 \<and>
   readyState (connect True) = OPEN \<and>
   on_stdout_data (''Content-Length: 7'' @ CRLF2 @ ''[1,'') (connect True) =
     (connect True)\<lparr>buffer := buffer (connect True) @ ''Content-Length: 7'' @ CRLF2 @ ''[1,''\<rparr> \<and>
   sent (on_stdout_data ''2,3]''
          (on_stdout_data (''Content-Length: 7'' @ CRLF2 @ ''[1,'') (connect True))) =
     sent (connect True) @
       [buffer (connect True) @ (''Content-Length: 7'' @ CRLF2 @ ''[1,'') @ ''2,3]''] \<and>
   buffer (on_stdout_data ''2,3]''
          (on_stdout_data (''Content-Length: 7'' @ CRLF2 @ ''[1,'') (connect True))) = []"
proof -
  let ?st = "connect True"
  let ?data = "''Content-Length: 7'' @ CRLF2 @ ''[1,''"
  have h1: "indexOf (buffer ?st @ ?data) CRLF2 = Some 17"
    by (simp add: connect_def CRLF2_def CR_def LF_def)
  have h2: "header_match (toString (slice (buffer ?st @ ?data) 0 17)) = Some [55]"
    by (simp add: eval_defs)
  have p: "parseInt [55] = 7"
    by (simp add: parseInt_def)
  have h3: "length (buffer ?st @ ?data) < 17 + 4 + parseInt [55]"
    by (simp add: eval_defs)
  have h4: "length (buffer ?st @ ?data @ ''2,3]'') = 17 + 4 + parseInt [55]"
    by (simp add: eval_defs)
  have h5: "readyState ?st = OPEN"
    by (simp add: connect_def)
  from C2_partial_frame_retained [OF h1 h2 h3 h4 h5] h1 h2 p h5 show ?thesis
    by blast
qed

section \<open>Malformed headers\<close>

text \<open>
  C3. When the buffer starts with a header block that has no \<^verbatim>\<open>Content-Length\<close> (its
  first blank line is the one that ends it) and a complete valid frame follows, the
  handler drops the block up to and including its blank line, goes on, and sends exactly
  one message, the valid frame; the buffer is empty afterwards.
\<close>

theorem C3_malformed_header_skipped:
  assumes "readyState st = OPEN"
    and "buffer st @ data = garbage @ CRLF2 @ frame p"
    and "indexOf (garbage @ CRLF2) CRLF2 = Some (length garbage)"
    and "header_match (toString garbage) = None"
  shows "sent (on_stdout_data data st) = sent st @ [frame p] \<and>
         buffer (on_stdout_data data st) = []"
proof -
  let ?st0 = "st\<lparr>buffer := garbage @ CRLF2 @ frame p\<rparr>"
  have idx: "indexOf (buffer ?st0) CRLF2 = Some (length garbage)"
    using indexOf_append [OF assms(3), of "frame p"] by simp
  have hm: "header_match (toString (slice (buffer ?st0) 0 (length garbage))) = None"
    using assms(4) by (simp add: slice_def)
  let ?st1 = "?st0\<lparr>buffer := frame p\<rparr>"
  have "process_buffer (Suc 99) ?st0 = process_buffer 99 ?st1"
    using pb_skip [OF idx hm, of 99] by (simp add: length_CRLF2 del: process_buffer.simps)
  also have "\<dots> = process_buffer (Suc 98) ?st1"
    by simp
  also have "\<dots> = process_buffer 98 (ws_send (frame p) (?st1\<lparr>buffer := []\<rparr>))"
    using frame_step [of ?st1 p "[]" 98] assms(1) by (simp del: process_buffer.simps)
  also have "\<dots> = ws_send (frame p) (?st1\<lparr>buffer := []\<rparr>)"
    by (rule process_buffer_empty) (simp add: ws_send_def)
  finally have "on_stdout_data data st = ws_send (frame p) (?st1\<lparr>buffer := []\<rparr>)"
    by (simp add: on_stdout_data_def assms(2) del: process_buffer.simps)
  then show ?thesis
    by (simp add: ws_send_def)
qed

theorem C3_malformed_header_skipped_witness:
  "readyState (connect True) = OPEN \<and>
   buffer (connect True) @ (''garbage'' @ CRLF2 @ frame ''{}'') = ''garbage'' @ CRLF2 @ frame ''{}'' \<and>
   indexOf (''garbage'' @ CRLF2) CRLF2 = Some (length ''garbage'') \<and>
   header_match (toString ''garbage'') = None \<and>
   sent (on_stdout_data (''garbage'' @ CRLF2 @ frame ''{}'') (connect True)) =
     sent (connect True) @ [frame ''{}''] \<and>
   buffer (on_stdout_data (''garbage'' @ CRLF2 @ frame ''{}'') (connect True)) = []"
proof -
  have h1: "readyState (connect True) = OPEN"
    by (simp add: connect_def)
  have h2: "buffer (connect True) @ (''garbage'' @ CRLF2 @ frame ''{}'') =
      ''garbage'' @ CRLF2 @ frame ''{}''"
    by (simp add: connect_def)
  have h3: "indexOf (''garbage'' @ CRLF2) CRLF2 = Some (length ''garbage'')"
    by (simp add: CRLF2_def CR_def LF_def)
  have h4: "header_match (toString ''garbage'') = None"
    by (simp add: eval_defs)
  from C3_malformed_header_skipped [OF h1 h2 h3 h4] h1 h2 h3 h4 show ?thesis
    by blast
qed

section \<open>Malformed JSON\<close>

lemma span_step:
  assumes "indexOf (hdr @ CRLF2) CRLF2 = Some (length hdr)"
    and "header_match (toString hdr) = Some m"
    and "parseInt m = length payload"
    and "buffer st = hdr @ CRLF2 @ payload @ rest"
  shows "process_buffer (Suc n) st =
         process_buffer n
           (if readyState st = OPEN then ws_send (hdr @ CRLF2 @ payload) (st\<lparr>buffer := rest\<rparr>)
            else st\<lparr>buffer := rest\<rparr>)"
proof -
  have "indexOf ((hdr @ CRLF2) @ payload @ rest) CRLF2 = Some (length hdr)"
    using assms(1) by (rule indexOf_append)
  then have idx: "indexOf (buffer st) CRLF2 = Some (length hdr)"
    by (simp add: assms(4))
  have hm: "header_match (toString (slice (buffer st) 0 (length hdr))) = Some m"
    using assms(2) by (simp add: assms(4) slice_def)
  have e: "length hdr + 4 + parseInt m = length (hdr @ CRLF2 @ payload)"
    by (simp add: assms(3) length_CRLF2)
  have full: "\<not> length (buffer st) < length hdr + 4 + parseInt m"
    unfolding e by (simp add: assms(4))
  have "slice (buffer st) 0 (length (hdr @ CRLF2 @ payload)) = hdr @ CRLF2 @ payload"
    and "drop (length (hdr @ CRLF2 @ payload)) (buffer st) = rest"
    by (simp_all add: assms(4) slice_def)
  with pb_emit [OF idx hm full, of n] show ?thesis
    unfolding e by (simp del: process_buffer.simps length_append)
qed

text \<open>
  C4, as the code has it. The proxy never lets the outcome of \<^verbatim>\<open>JSON.parse\<close> decide
  anything, so the statement is for every payload, valid JSON or not. For a well-formed
  header declaring \<open>N\<close> bytes followed by \<open>N\<close> bytes of payload, the handler forwards that
  span as one message, consumes exactly that span and goes on with what follows it; a
  complete frame right behind the span is forwarded as the next message.
\<close>

theorem C4_malformed_json_forwarded:
  assumes "indexOf (hdr @ CRLF2) CRLF2 = Some (length hdr)"
    and "header_match (toString hdr) = Some m"
    and "parseInt m = length payload"
    and "readyState st = OPEN"
  shows "(buffer st @ data = hdr @ CRLF2 @ payload \<longrightarrow>
            sent (on_stdout_data data st) = sent st @ [hdr @ CRLF2 @ payload] \<and>
            buffer (on_stdout_data data st) = []) \<and>
         (buffer st @ data = hdr @ CRLF2 @ payload @ frame p \<longrightarrow>
            sent (on_stdout_data data st) = sent st @ [hdr @ CRLF2 @ payload, frame p] \<and>
            buffer (on_stdout_data data st) = []) \<and>
         (buffer st @ data = hdr @ CRLF2 @ payload @ rest \<longrightarrow>
            on_stdout_data data st =
              process_buffer 99 (ws_send (hdr @ CRLF2 @ payload) (st\<lparr>buffer := rest\<rparr>)))"
proof -
  have step: "on_stdout_data data st =
      process_buffer 99 (ws_send (hdr @ CRLF2 @ payload) (st\<lparr>buffer := r\<rparr>))"
    if "buffer st @ data = hdr @ CRLF2 @ payload @ r" for r
  proof -
    let ?st0 = "st\<lparr>buffer := buffer st @ data\<rparr>"
    have "buffer ?st0 = hdr @ CRLF2 @ payload @ r"
      using that by simp
    from span_step [OF assms(1-3) this, of 99] show ?thesis
      using assms(4) by (simp add: on_stdout_data_def del: process_buffer.simps)
  qed
  have one: "sent (on_stdout_data data st) = sent st @ [hdr @ CRLF2 @ payload] \<and>
      buffer (on_stdout_data data st) = []"
    if "buffer st @ data = hdr @ CRLF2 @ payload"
  proof -
    from that have "buffer st @ data = hdr @ CRLF2 @ payload @ []"
      by simp
    then have "on_stdout_data data st =
        process_buffer 99 (ws_send (hdr @ CRLF2 @ payload) (st\<lparr>buffer := []\<rparr>))"
      by (rule step)
    also have "\<dots> = ws_send (hdr @ CRLF2 @ payload) (st\<lparr>buffer := []\<rparr>)"
      by (rule process_buffer_empty) (simp add: ws_send_def)
    finally show ?thesis
      by (simp add: ws_send_def)
  qed
  have two: "sent (on_stdout_data data st) = sent st @ [hdr @ CRLF2 @ payload, frame p] \<and>
      buffer (on_stdout_data data st) = []"
    if "buffer st @ data = hdr @ CRLF2 @ payload @ frame p"
  proof -
    let ?st1 = "ws_send (hdr @ CRLF2 @ payload) (st\<lparr>buffer := frame p\<rparr>)"
    let ?st2 = "ws_send (frame p) (?st1\<lparr>buffer := []\<rparr>)"
    have "on_stdout_data data st = process_buffer (Suc 98) ?st1"
      using step [OF that] by simp
    also have "\<dots> = process_buffer 98 ?st2"
      using frame_step [of ?st1 p "[]" 98] assms(4)
      by (simp add: ws_send_def del: process_buffer.simps)
    also have "\<dots> = ?st2"
      by (rule process_buffer_empty) (simp add: ws_send_def)
    finally show ?thesis
      by (simp add: ws_send_def)
  qed
  from one two step [of rest] show ?thesis
    by blast
qed

theorem C4_malformed_json_forwarded_witness:
  "indexOf (''Content-Length: 3'' @ CRLF2) CRLF2 = Some (length ''Content-Length: 3'') \<and>
   header_match (toString ''Content-Length: 3'') = Some [51] \<and>
   parseInt [51] = length ''{x}'' \<and>
   readyState (connect True) = OPEN \<and>
   buffer (connect True) @ (''Content-Length: 3'' @ CRLF2 @ ''{x}'' @ frame ''{}'') =
     ''Content-Length: 3'' @ CRLF2 @ ''{x}'' @ frame ''{}'' \<and>
   sent (on_stdout_data (''Content-Length: 3'' @ CRLF2 @ ''{x}'' @ frame ''{}'') (connect True)) =
     sent (connect True) @ [''Content-Length: 3'' @ CRLF2 @ ''{x}'', frame ''{}''] \<and>
   buffer (on_stdout_data (''Content-Length: 3'' @ CRLF2 @ ''{x}'' @ frame ''{}'') (connect True)) = []"
proof -
  have h1: "indexOf (''Content-Length: 3'' @ CRLF2) CRLF2 = Some (length ''Content-Length: 3'')"
    by (simp add: CRLF2_def CR_def LF_def)
  have h2: "header_match (toString ''Content-Length: 3'') = Some [51]"
    by (simp add: eval_defs)
  have h3: "parseInt [51] = length ''{x}''"
    by (simp add: parseInt_def)
  have h4: "readyState (connect True) = OPEN"
    by (simp add: connect_def)
  have h5: "buffer (connect True) @ (''Content-Length: 3'' @ CRLF2 @ ''{x}'' @ frame ''{}'') =
      ''Content-Length: 3'' @ CRLF2 @ ''{x}'' @ frame ''{}''"
    by (simp add: connect_def)
  from C4_malformed_json_forwarded [OF h1 h2 h3 h4,
      of "''Content-Length: 3'' @ CRLF2 @ ''{x}'' @ frame ''{}''" "''{}''"]
    h1 h2 h3 h4 h5
  show ?thesis by blast
qed

text \<open>
  C4 as stated fails on the proxy: a frame whose payload is not JSON is sent to the
  socket like any other.
\<close>

theorem C4_malformed_json_counterexample:
  "frame ''{x}'' = ''Content-Length: 3'' @ CRLF2 @ ''{x}'' \<and>
   sent (on_stdout_data (''Content-Length: 3'' @ CRLF2 @ ''{x}'') (connect True)) =
     [''Content-Length: 3'' @ CRLF2 @ ''{x}''] \<and>
   sent (on_stdout_data (''Content-Length: 3'' @ CRLF2 @ ''{x}'') (connect True)) \<noteq> []"
  by (simp add: eval_defs frame_def header_def decimal.simps char_of_digits)

section \<open>The iteration cap\<close>

text \<open>
  C5. When a chunk leaves the buffer starting with a hundred or more complete frames, one
  invocation of the handler forwards the first hundred, in order and unchanged, and
  leaves everything behind them in the buffer, untouched; the next chunk-arrival event
  takes up from there, again for up to a hundred frames. No invocation, on any buffer,
  sends more than a hundred messages.
\<close>

theorem C5_iteration_cap:
  assumes "readyState st = OPEN"
    and "buffer st @ data = concat (map frame ps) @ rest"
    and "100 \<le> length ps"
  shows "sent (on_stdout_data data st) = sent st @ map frame (take 100 ps) \<and>
         buffer (on_stdout_data data st) = concat (map frame (drop 100 ps)) @ rest \<and>
         (rest @ data2 = concat (map frame qs) \<longrightarrow>
            sent (on_stdout_data data2 (on_stdout_data data st)) =
              sent st @ map frame (take 100 ps) @ map frame (take 100 (drop 100 ps @ qs)) \<and>
            buffer (on_stdout_data data2 (on_stdout_data data st)) =
              concat (map frame (drop 100 (drop 100 ps @ qs)))) \<and>
         length (sent (on_stdout_data data' st')) \<le> length (sent st') + 100"
proof -
  let ?st0 = "st\<lparr>buffer := buffer st @ data\<rparr>"
  let ?st1 = "on_stdout_data data st"
  let ?rest = "concat (map frame (drop 100 ps)) @ rest"
  have "concat (map frame ps) = concat (map frame (take 100 ps @ drop 100 ps))"
    by simp
  then have "concat (map frame ps) =
      concat (map frame (take 100 ps)) @ concat (map frame (drop 100 ps))"
    by (simp only: map_append concat_append)
  then have b0: "buffer ?st0 = concat (map frame (take 100 ps)) @ ?rest"
    by (simp add: assms(2))
  have "readyState ?st0 = OPEN"
    by (simp add: assms(1))
  moreover note b0
  moreover have "length (take 100 ps) \<le> 100"
    by simp
  ultimately have "process_buffer 100 ?st0 =
      process_buffer (100 - length (take 100 ps))
        (?st0\<lparr>buffer := ?rest, sent := sent ?st0 @ map frame (take 100 ps)\<rparr>)"
    by (rule drain_frames)
  then have first: "?st1 = st\<lparr>buffer := ?rest, sent := sent st @ map frame (take 100 ps)\<rparr>"
    using assms(3) by (simp add: on_stdout_data_def min_def)
  have second: "sent (on_stdout_data data2 ?st1) =
        sent st @ map frame (take 100 ps) @ map frame (take 100 (drop 100 ps @ qs)) \<and>
      buffer (on_stdout_data data2 ?st1) = concat (map frame (drop 100 (drop 100 ps @ qs)))"
    if "rest @ data2 = concat (map frame qs)"
  proof -
    have "readyState ?st1 = OPEN"
      by (simp add: first assms(1))
    moreover have "buffer ?st1 @ data2 = concat (map frame (drop 100 ps @ qs))"
      using that by (simp add: first)
    ultimately have "on_stdout_data data2 ?st1 =
        ?st1\<lparr>buffer := concat (map frame (drop 100 (drop 100 ps @ qs))),
             sent := sent ?st1 @ map frame (take 100 (drop 100 ps @ qs))\<rparr>"
      by (rule on_stdout_data_frames)
    moreover have "sent ?st1 = sent st @ map frame (take 100 ps)"
      by (simp add: first)
    ultimately show ?thesis by simp
  qed
  have "length (sent (on_stdout_data data' st')) \<le> length (sent st') + 100"
    unfolding on_stdout_data_def using sent_bound [of 100 "st'\<lparr>buffer := buffer st' @ data'\<rparr>"]
    by simp
  moreover have "sent ?st1 = sent st @ map frame (take 100 ps)"
    and "buffer ?st1 = ?rest"
    by (simp_all add: first)
  ultimately show ?thesis
    using second by blast
qed

theorem C5_iteration_cap_witness:
  "readyState (connect True) = OPEN \<and>
   buffer (connect True) @ concat (map frame (replicate 101 ''{}'')) =
     concat (map frame (replicate 101 ''{}'')) @ [] \<and>
   100 \<le> length (replicate 101 ''{}'') \<and>
   sent (on_stdout_data (concat (map frame (replicate 101 ''{}''))) (connect True)) =
     replicate 100 (frame ''{}'') \<and>
   buffer (on_stdout_data (concat (map frame (replicate 101 ''{}''))) (connect True)) =
     frame ''{}'' \<and>
   sent (on_stdout_data [] (on_stdout_data (concat (map frame (replicate 101 ''{}''))) (connect True))) =
     replicate 101 (frame ''{}'') \<and>
   buffer (on_stdout_data [] (on_stdout_data (concat (map frame (replicate 101 ''{}''))) (connect True))) = []"
proof -
  have h1: "readyState (connect True) = OPEN"
    by (simp add: connect_def)
  have h2: "buffer (connect True) @ concat (map frame (replicate 101 ''{}'')) =
      concat (map frame (replicate 101 ''{}'')) @ []"
    by (simp add: connect_def)
  have h3: "100 \<le> length (replicate 101 ''{}'')"
    by simp
  have "replicate (Suc 100) (frame ''{}'') = replicate 100 (frame ''{}'') @ [frame ''{}'']"
    by (simp only: replicate_Suc replicate_append_same)
  then have "replicate 101 (frame ''{}'') = replicate 100 (frame ''{}'') @ [frame ''{}'']"
    by simp
  with C5_iteration_cap [OF h1 h2 h3, of "[]" "[]"] h1 h2 h3 show ?thesis
    by (simp add: connect_def)
qed

section \<open>Close codes\<close>

text \<open>
  C6. When the child emits \<^verbatim>\<open>exit\<close>, whatever the exit code, the handler closes the
  socket with code 1000; when the child emits \<^verbatim>\<open>error\<close> (a failed spawn included) it
  closes the socket with code 1011. On a socket that is still open either call starts the
  closing handshake, and the two codes differ.
\<close>

theorem C6_close_codes:
  "closes (on_child_exit code st) = closes st @ [(1000, ''Child process exited'')] \<and>
   closes (on_child_error st) = closes st @ [(1011, ''Child process error'')] \<and>
   closes (deliver (connect spawned) (ChildExit code)) = [(1000, ''Child process exited'')] \<and>
   readyState (deliver (connect spawned) (ChildExit code)) = CLOSING \<and>
   closes (deliver (connect spawned) ChildError) = [(1011, ''Child process error'')] \<and>
   readyState (deliver (connect spawned) ChildError) = CLOSING \<and>
   fst (last (closes (on_child_exit code st))) \<noteq> fst (last (closes (on_child_error st')))"
  by (simp add: on_child_exit_def on_child_error_def ws_close_def connect_def)

section \<open>Killing the child\<close>

lemma deliver_exited:
  "\<not> running st \<Longrightarrow> \<not> running (deliver st ev) \<and> signals (deliver st ev) = signals st"
  by (cases ev) (simp_all add: on_child_error_def on_child_exit_def ws_close_def on_stdout_data_def
      process_buffer_child on_ws_message_def on_ws_close_def on_ws_error_def child_kill_def)

lemma run_exited:
  "\<not> running st \<Longrightarrow> \<not> running (run st evs) \<and> signals (run st evs) = signals st"
  unfolding run_def
  by (induction evs arbitrary: st) (simp_all add: deliver_exited del: deliver.simps)

text \<open>
  C7, as the code has it. On a connection whose child is running and has not been
  signalled, the socket's \<^verbatim>\<open>close\<close> event makes exactly one call of \<^verbatim>\<open>child.kill()\<close>,
  which delivers exactly one signal and sets \<^verbatim>\<open>child.killed\<close>; whatever events follow
  (further \<^verbatim>\<open>close\<close> and \<^verbatim>\<open>error\<close> events of the socket among them), \<^verbatim>\<open>child.kill()\<close> is
  never called again and no further signal is delivered. On a child that has exited,
  \<^verbatim>\<open>child.killed\<close> is still false, so each \<^verbatim>\<open>close\<close> or \<^verbatim>\<open>error\<close> event of the socket
  calls \<^verbatim>\<open>child.kill()\<close>, which delivers nothing and leaves the flag as it is; no event
  after the exit delivers a signal. From a fresh connection no sequence of events ever
  delivers more than one signal.
\<close>

theorem C7_kill_at_most_once:
  "(running st \<and> \<not> killed st \<longrightarrow>
      signals (deliver st WsClose) = signals st + 1 \<and>
      kill_calls (deliver st WsClose) = kill_calls st + 1 \<and>
      killed (deliver st WsClose) \<and>
      signals (run (deliver st WsClose) evs) = signals st + 1 \<and>
      kill_calls (run (deliver st WsClose) evs) = kill_calls st + 1) \<and>
   (\<not> running st \<and> \<not> killed st \<longrightarrow>
      signals (deliver st WsClose) = signals st \<and>
      kill_calls (deliver st WsClose) = kill_calls st + 1 \<and>
      \<not> killed (deliver st WsClose) \<and>
      signals (deliver st WsError) = signals st \<and>
      kill_calls (deliver st WsError) = kill_calls st + 1 \<and>
      \<not> killed (deliver st WsError)) \<and>
   (\<not> running st \<longrightarrow> signals (run st evs) = signals st) \<and>
   signals (run (connect spawned) evs) \<le> 1"
proof -
  have alive: "signals (deliver st WsClose) = signals st + 1 \<and>
      kill_calls (deliver st WsClose) = kill_calls st + 1 \<and>
      killed (deliver st WsClose) \<and>
      signals (run (deliver st WsClose) evs) = signals st + 1 \<and>
      kill_calls (run (deliver st WsClose) evs) = kill_calls st + 1"
    if "running st" and "\<not> killed st"
  proof -
    have first: "signals (deliver st WsClose) = signals st + 1 \<and>
        kill_calls (deliver st WsClose) = kill_calls st + 1 \<and>
        killed (deliver st WsClose)"
      using that by (simp add: on_ws_close_def child_kill_def)
    then show ?thesis
      using run_killed [of "deliver st WsClose" evs] by simp
  qed
  have exited: "signals (deliver st WsClose) = signals st \<and>
      kill_calls (deliver st WsClose) = kill_calls st + 1 \<and>
      \<not> killed (deliver st WsClose) \<and>
      signals (deliver st WsError) = signals st \<and>
      kill_calls (deliver st WsError) = kill_calls st + 1 \<and>
      \<not> killed (deliver st WsError)"
    if "\<not> running st" and "\<not> killed st"
    using that by (simp add: on_ws_close_def on_ws_error_def child_kill_def)
  have never: "signals (run st evs) = signals st" if "\<not> running st"
    using that run_exited [of st evs] by simp
  have "signals (run (connect spawned) evs) \<le> 1"
    using run_signals_inv [of "connect spawned" evs] by (simp add: connect_def)
  with alive exited never show ?thesis
    by blast
qed

theorem C7_kill_at_most_once_witness:
  "running (connect True) \<and> \<not> killed (connect True) \<and>
   signals (deliver (connect True) WsClose) = 1 \<and>
   kill_calls (run (deliver (connect True) WsClose) [WsClose, WsError, WsClose]) = 1 \<and>
   signals (run (deliver (connect True) WsClose) [WsClose, WsError, WsClose]) = 1 \<and>
   \<not> running (deliver (connect True) (ChildExit None)) \<and>
   \<not> killed (deliver (connect True) (ChildExit None)) \<and>
   kill_calls (deliver (deliver (connect True) (ChildExit None)) WsClose) = 1 \<and>
   signals (deliver (deliver (connect True) (ChildExit None)) WsClose) = 0 \<and>
   signals (run (deliver (connect True) (ChildExit None)) [WsClose, WsError, WsClose]) = 0"
proof -
  let ?alive = "connect True"
  let ?gone = "deliver (connect True) (ChildExit None)"
  have a: "running ?alive \<and> \<not> killed ?alive"
    and a0: "signals ?alive = 0" "kill_calls ?alive = 0"
    by (simp_all add: connect_def)
  have g: "\<not> running ?gone \<and> \<not> killed ?gone"
    and g0: "signals ?gone = 0" "kill_calls ?gone = 0"
    by (simp_all add: connect_def on_child_exit_def ws_close_def)
  from C7_kill_at_most_once [of ?alive "[WsClose, WsError, WsClose]"]
    C7_kill_at_most_once [of ?gone "[WsClose, WsError, WsClose]"] a a0 g g0
  show ?thesis by simp
qed

text \<open>
  C7 as stated fails when the child exits first: the \<^verbatim>\<open>close\<close> event then delivers no
  signal, and every later \<^verbatim>\<open>close\<close> or \<^verbatim>\<open>error\<close> event calls \<^verbatim>\<open>child.kill()\<close> again.
\<close>

theorem C7_idempotent_kill_counterexample:
  "kill_calls (run (connect True) [ChildExit None, WsClose, WsError, WsClose]) = 3 \<and>
   signals (run (connect True) [ChildExit None, WsClose, WsError, WsClose]) = 0 \<and>
   \<not> killed (run (connect True) [ChildExit None, WsClose, WsError, WsClose])"
  by (simp add: run_def connect_def on_child_exit_def ws_close_def on_ws_close_def
      on_ws_error_def child_kill_def)

section \<open>Routing of upgrade requests\<close>

text \<open>
  C8. The upgrade handler hands a request to \<^verbatim>\<open>wss.handleUpgrade\<close> exactly when the URL
  built from \<^verbatim>\<open>request.url\<close> has the path \<^verbatim>\<open>/api/copilot\<close>; a request whose URL has any
  other path is left alone: the handler does nothing with the request or its socket.
\<close>

theorem C8_upgrade_routing:
  "(upgradeHandler new_URL req = Inr [HandleUpgrade] \<longleftrightarrow>
      (\<exists>u. new_URL (url req) (base_url req) = Inr u \<and> pathname u = ''/api/copilot'')) \<and>
   (\<forall>u. new_URL (url req) (base_url req) = Inr u \<and> pathname u \<noteq> ''/api/copilot'' \<longrightarrow>
      upgradeHandler new_URL req = Inr [])"
  by (auto simp: upgradeHandler_def split: sum.splits)

theorem C8_upgrade_routing_witness:
  "upgradeHandler (\<lambda>input base. Inr \<lparr>pathname = takeWhile (\<lambda>c. c \<noteq> CHR ''?'') input\<rparr>)
     \<lparr>url = ''/api/copilot?x=1'', host = Some ''localhost:3000''\<rparr> = Inr [HandleUpgrade] \<and>
   upgradeHandler (\<lambda>input base. Inr \<lparr>pathname = takeWhile (\<lambda>c. c \<noteq> CHR ''?'') input\<rparr>)
     \<lparr>url = ''/vite-hmr'', host = Some ''localhost:3000''\<rparr> = Inr []"
  using
    C8_upgrade_routing [of "\<lambda>input base. Inr \<lparr>pathname = takeWhile (\<lambda>c. c \<noteq> CHR ''?'') input\<rparr>"
      "\<lparr>url = ''/api/copilot?x=1'', host = Some ''localhost:3000''\<rparr>"]
    C8_upgrade_routing [of "\<lambda>input base. Inr \<lparr>pathname = takeWhile (\<lambda>c. c \<noteq> CHR ''?'') input\<rparr>"
      "\<lparr>url = ''/vite-hmr'', host = Some ''localhost:3000''\<rparr>"]
  by simp

text \<open>
  C9, where the code departs from the claim. Whenever \<^verbatim>\<open>new URL\<close> rejects what it is
  given (a \<^verbatim>\<open>Host\<close> header such as \<^verbatim>\<open>[\<close> makes the base \<^verbatim>\<open>https://[\<close> invalid), the
  upgrade handler throws that \<^verbatim>\<open>TypeError\<close>: nothing in it catches the exception.
\<close>

theorem C9_upgradeHandler_throws:
  "new_URL (url req) (base_url req) = Inl e \<Longrightarrow> upgradeHandler new_URL req = Inl e"
  by (simp add: upgradeHandler_def)

theorem C9_upgradeHandler_throws_witness:
  "base_url \<lparr>url = ''/api/copilot'', host = Some ''[''\<rparr> = ''https://['' \<and>
   upgradeHandler (\<lambda>input base. if base = ''https://['' then Inl TypeError else Inr \<lparr>pathname = input\<rparr>)
     \<lparr>url = ''/api/copilot'', host = Some ''[''\<rparr> = Inl TypeError"
  using C9_upgradeHandler_throws
    [of "\<lambda>input base. if base = ''https://['' then Inl TypeError else Inr \<lparr>pathname = input\<rparr>"
        "\<lparr>url = ''/api/copilot'', host = Some ''[''\<rparr>" TypeError]
  by (simp add: base_url_def)

section \<open>Frames extracted while the socket is not open\<close>

text \<open>
  C10. While \<^verbatim>\<open>ws.readyState\<close> is not \<^verbatim>\<open>OPEN\<close>, a chunk from the child is consumed from
  the buffer exactly as it would be on an open socket, but nothing is sent; whatever
  events follow, nothing of it is sent later either. The first version of the proxy
  drops the whole chunk.
\<close>

theorem C10_dropped_when_not_open:
  assumes "readyState st \<noteq> OPEN"
  shows "sent (on_stdout_data data st) = sent st \<and>
         buffer (on_stdout_data data st) = buffer (on_stdout_data data (st\<lparr>readyState := OPEN\<rparr>)) \<and>
         sent (run (on_stdout_data data st) evs) = sent st \<and>
         on_stdout_data_unframed data st = st"
proof -
  have "sent (on_stdout_data data st) = sent st"
    using assms by (simp add: on_stdout_data_def process_buffer_not_open)
  moreover have "buffer (on_stdout_data data st) =
      buffer (on_stdout_data data (st\<lparr>readyState := OPEN\<rparr>))"
    unfolding on_stdout_data_def by (rule process_buffer_buffer) simp
  moreover have "readyState (on_stdout_data data st) \<noteq> OPEN"
    using assms by (simp add: on_stdout_data_def process_buffer_socket)
  then have "sent (run (on_stdout_data data st) evs) = sent (on_stdout_data data st)"
    by (rule run_not_open)
  ultimately show ?thesis
    using assms by (simp add: on_stdout_data_unframed_def)
qed

theorem C10_dropped_when_not_open_witness:
  "readyState ((connect True)\<lparr>readyState := CLOSING\<rparr>) \<noteq> OPEN \<and>
   sent (on_stdout_data (''Content-Length: 2'' @ CRLF2 @ ''{}'')
           ((connect True)\<lparr>readyState := CLOSING\<rparr>)) = [] \<and>
   buffer (on_stdout_data (''Content-Length: 2'' @ CRLF2 @ ''{}'')
           ((connect True)\<lparr>readyState := CLOSING\<rparr>)) = [] \<and>
   sent (run (on_stdout_data (''Content-Length: 2'' @ CRLF2 @ ''{}'')
           ((connect True)\<lparr>readyState := CLOSING\<rparr>)) [StdoutData [], WsClose]) = []"
  using C10_dropped_when_not_open
    [of "(connect True)\<lparr>readyState := CLOSING\<rparr>" "''Content-Length: 2'' @ CRLF2 @ ''{}''"
        "[StdoutData [], WsClose]"]
  by (simp add: eval_defs)

end
